theory Spec2Isabelle
  imports Main "HOL-Library.AList" "HOL-Library.Multiset" "HOL-Library.List_Lexorder"
    "HOL-Library.Char_ord"
begin

section \<open>Python values, objects and the heap\<close>

text \<open>
  The function \<^verbatim>\<open>copy_db_ids\<close> of \<^verbatim>\<open>ax/storage/sqa_store/utils.py\<close> walks two
  Python object graphs and writes attributes of the objects of the second one. Objects
  have identity and may be shared, so they live in an explicit heap: an address is a
  natural number and a value refers to an object by its address. Lists, sets, tuples
  and dictionaries are never written by the function; they are kept as immutable values
  (a set is the list of its elements in iteration order, a dictionary the list of its
  items in insertion order).
\<close>

type_synonym addr = nat

text \<open>
  \<open>VType m c\<close> is the class object named \<open>c\<close> (a "type descriptor") whose metaclass
  is named \<open>m\<close>: \<^verbatim>\<open>type\<close>, unless the class declares another one. \<open>VRef a\<close> is the
  instance at address \<open>a\<close>. \<open>VList\<close>, \<open>VSet\<close> and \<open>VDict\<close> are the values whose type
  is exactly \<^verbatim>\<open>list\<close>, \<^verbatim>\<open>set\<close> and \<^verbatim>\<open>dict\<close>; \<open>VListSub c xs\<close>, \<open>VSetSub c xs\<close>
  and \<open>VDictSub c kvs\<close> are instances of a class named \<open>c\<close> that derives from
  \<^verbatim>\<open>list\<close>, from \<^verbatim>\<open>set\<close> and from \<^verbatim>\<open>dict\<close> (an \<^verbatim>\<open>OrderedDict\<close>, a
  \<^verbatim>\<open>defaultdict\<close>); \<open>VColl c xs\<close> is a collection of a class named \<open>c\<close> that derives
  from none of the three: a tuple when \<open>c\<close> is \<^verbatim>\<open>tuple\<close>, a frozenset when \<open>c\<close> is
  \<^verbatim>\<open>frozenset\<close>.
\<close>

datatype val =
    VNone
  | VInt int
  | VStr string
  | VType string string
  | VRef addr
  | VList "val list"
  | VSet "val list"
  | VColl string "val list"
  | VDict "(val \<times> val) list"
  | VListSub string "val list"
  | VSetSub string "val list"
  | VDictSub string "(val \<times> val) list"

text \<open>
  Modelled from the spec: the classes \<^verbatim>\<open>Base\<close> and \<^verbatim>\<open>SortableBase\<close> are imported from
  \<^verbatim>\<open>ax.utils.common.base\<close>, which is not among the sources. The spec describes
  them as "identifiable object" and as the "total order" capability, "distinct from plain
  identifiable-object support". A class of instances records its name, which of the two it
  derives from, and the attributes that the class and its bases define: what
  \<^verbatim>\<open>getattr\<close> finds when the instance has no attribute of that name itself.
\<close>

datatype base_kind = NotBase | Base | SortableBase

datatype pyclass = PyClass (cname: string) (ckind: base_kind) (cattrs: "(string \<times> val) list")

text \<open>
  The result of Python's \<^verbatim>\<open>type(x)\<close>. The type of a class object is its metaclass:
  \<open>TMeta ''type''\<close> for most classes, another one for a class that declares it.
\<close>

datatype pytype =
    TNone | TInt | TStr | TMeta string | TList | TSet | TDict
  | TColl string
  | TInst pyclass
  | TListSub string | TSetSub string | TDictSub string

text \<open>
  Modelled from the spec: the order of the instances of \<open>SortableBase\<close> is defined in
  \<^verbatim>\<open>ax.utils.common.base\<close>, which is not among the sources. The spec says that they
  "support a total order", their "natural order"; \<open>order_key\<close> is the place of the
  instance in that order, and two instances may have the same place. The other two fields
  of an instance are its class and its \<^verbatim>\<open>__dict__\<close>, in insertion order.
\<close>

record obj =
  cls :: pyclass
  order_key :: nat
  attrs :: "(string \<times> val) list"

type_synonym heap = "addr \<Rightarrow> obj"

fun type_of :: "heap \<Rightarrow> val \<Rightarrow> pytype" where
  "type_of h VNone = TNone"
| "type_of h (VInt i) = TInt"
| "type_of h (VStr s) = TStr"
| "type_of h (VType m c) = TMeta m"
| "type_of h (VRef a) = TInst (cls (h a))"
| "type_of h (VList xs) = TList"
| "type_of h (VSet xs) = TSet"
| "type_of h (VColl c xs) = TColl c"
| "type_of h (VDict kvs) = TDict"
| "type_of h (VListSub c xs) = TListSub c"
| "type_of h (VSetSub c xs) = TSetSub c"
| "type_of h (VDictSub c kvs) = TDictSub c"

fun isinstance_Base :: "heap \<Rightarrow> val \<Rightarrow> bool" where
  "isinstance_Base h (VRef a) = (ckind (cls (h a)) \<noteq> NotBase)"
| "isinstance_Base h v = False"

fun isinstance_SortableBase :: "heap \<Rightarrow> val \<Rightarrow> bool" where
  "isinstance_SortableBase h (VRef a) = (ckind (cls (h a)) = SortableBase)"
| "isinstance_SortableBase h v = False"

text \<open>
  \<^verbatim>\<open>isinstance(x, type)\<close> holds of every class object, whatever its metaclass;
  \<^verbatim>\<open>isinstance(x, (list, set))\<close> and \<^verbatim>\<open>isinstance(x, dict)\<close> hold of the instances of the
  built-in type and of the classes that derive from it.
\<close>

fun isinstance_type :: "val \<Rightarrow> bool" where
  "isinstance_type (VType m c) = True"
| "isinstance_type v = False"

fun isinstance_list_set :: "val \<Rightarrow> bool" where
  "isinstance_list_set (VList xs) = True"
| "isinstance_list_set (VSet xs) = True"
| "isinstance_list_set (VListSub c xs) = True"
| "isinstance_list_set (VSetSub c xs) = True"
| "isinstance_list_set v = False"

fun isinstance_dict :: "val \<Rightarrow> bool" where
  "isinstance_dict (VDict kvs) = True"
| "isinstance_dict (VDictSub c kvs) = True"
| "isinstance_dict v = False"

text \<open>\<^verbatim>\<open>list(x)\<close> of a list or a set, and \<^verbatim>\<open>x.items()\<close> of a dictionary.\<close>

fun elems :: "val \<Rightarrow> val list" where
  "elems (VList xs) = xs"
| "elems (VSet xs) = xs"
| "elems (VListSub c xs) = xs"
| "elems (VSetSub c xs) = xs"
| "elems v = []"

fun items :: "val \<Rightarrow> (val \<times> val) list" where
  "items (VDict kvs) = kvs"
| "items (VDictSub c kvs) = kvs"
| "items v = []"

text \<open>
  \<^verbatim>\<open>getattr\<close> reads the instance dictionary, then the attributes of the class, and
  fails (\<open>None\<close>, Python's \<^verbatim>\<open>AttributeError\<close>) when the name is in neither;
  \<^verbatim>\<open>setattr\<close> overwrites the entry of the instance dictionary in place or appends a new
  one, as a Python dictionary does. The attributes of a class are plain values here, not
  properties.
\<close>

definition getattr :: "heap \<Rightarrow> addr \<Rightarrow> string \<Rightarrow> val option" where
  "getattr h a nm =
    (case map_of (attrs (h a)) nm of
       Some v \<Rightarrow> Some v
     | None \<Rightarrow> map_of (cattrs (cls (h a))) nm)"

definition setattr :: "heap \<Rightarrow> addr \<Rightarrow> string \<Rightarrow> val \<Rightarrow> heap" where
  "setattr h a nm v = h(a := (h a)\<lparr>attrs := AList.update nm v (attrs (h a))\<rparr>)"

definition endswith :: "string \<Rightarrow> string \<Rightarrow> bool" where
  "endswith s suf = (length suf \<le> length s \<and> drop (length s - length suf) s = suf)"

definition startswith :: "string \<Rightarrow> string \<Rightarrow> bool" where
  "startswith s pre = (take (length pre) s = pre)"

text \<open>\<^verbatim>\<open>str(index)\<close> of a non-negative index.\<close>

definition digit :: "nat \<Rightarrow> char" where
  "digit d = ''0123456789'' ! d"

function str_nat :: "nat \<Rightarrow> string" where
  "str_nat n = (if n < 10 then [digit n] else str_nat (n div 10) @ [digit (n mod 10)])"
  by pat_completeness auto
termination
  by (relation "measure id") auto

declare str_nat.simps [simp del]

section \<open>Errors\<close>

text \<open>
  Every \<^verbatim>\<open>SQADecodeError\<close> of the function has the message
  \<^verbatim>\<open>error_message_prefix + detail\<close>, where the prefix is built from the path, the source
  and the target of the call that raises. The message is kept as these parts: the path,
  the source, the target, and which of the four details it is, with the values the detail
  names. The other errors are the Python exceptions the function does not raise itself:
  \<^verbatim>\<open>TypeError\<close> and \<^verbatim>\<open>AttributeError\<close> from a comparison of \<^verbatim>\<open>sorted\<close>,
  \<^verbatim>\<open>AttributeError\<close> from \<^verbatim>\<open>getattr\<close>, and \<^verbatim>\<open>RuntimeError\<close> from the iteration over a
  dictionary whose size has changed.
\<close>

datatype mismatch =
    DifferentTypes pytype pytype
  | DifferentLengths
  | CannotSort pytype
  | KeyOnlyInSource val

datatype error =
    SQADecodeError "val list" val val mismatch
  | TypeError
  | AttributeError
  | RuntimeError

text \<open>
  A call ends with \<open>(None, h')\<close> when it returns and with \<open>(Some e, h')\<close> when it raises
  \<open>e\<close>; \<open>h'\<close> is the heap at that moment.
\<close>

type_synonym outcome = "error option \<times> heap"

section \<open>Sorting\<close>

text \<open>
  Modelled from the spec: \<^verbatim>\<open>Base.__eq__\<close> is defined in \<^verbatim>\<open>ax.utils.common.base\<close>,
  which is not among the sources, and the spec does not describe it. For the spec an
  instance is an "identifiable object"; for \<^verbatim>\<open>==\<close> it is equal here to itself and to
  no other instance. Any other two values are equal when they are the same value of the
  model. Python uses \<^verbatim>\<open>==\<close> in the comparison of two sequences, to find the first
  index at which they differ.
\<close>

definition py_eq :: "val \<Rightarrow> val \<Rightarrow> bool" where
  "py_eq x y = (x = y)"

text \<open>
  Modelled from the spec: \<^verbatim>\<open>SortableBase.__lt__\<close> is defined in
  \<^verbatim>\<open>ax.utils.common.base\<close>, which is not among the sources. The spec says that
  elements "support a total order" and are sorted "under their natural order". The method
  reads the place of both operands in that order and compares the two; it raises
  \<^verbatim>\<open>AttributeError\<close> when the other operand is not an instance of \<open>SortableBase\<close>
  and so has none.
\<close>

definition sortable_lt :: "heap \<Rightarrow> addr \<Rightarrow> val \<Rightarrow> error + bool" where
  "sortable_lt h a y =
    (case y of
       VRef b \<Rightarrow>
         if isinstance_SortableBase h (VRef b) then Inr (order_key (h a) < order_key (h b))
         else Inl AttributeError
     | _ \<Rightarrow> Inl AttributeError)"

text \<open>
  Python's \<^verbatim>\<open>x < y\<close>, which may raise. Integers are ordered by value and strings
  lexicographically. Two lists, and two tuples, are ordered lexicographically: the
  elements at the first index where the two differ decide, and a proper prefix is smaller.
  Two sets (frozensets included) are ordered by proper inclusion. An instance of
  \<open>SortableBase\<close> on the left compares itself with the other operand. Any other pair of
  operands has no \<^verbatim>\<open><\<close> (\<^verbatim>\<open>None\<close>, dictionaries, class objects, other instances on
  the left, operands of two different kinds, collections of a class other than those
  named) and the comparison raises \<^verbatim>\<open>TypeError\<close>.
\<close>

fun as_list :: "val \<Rightarrow> val list option" where
  "as_list (VList xs) = Some xs"
| "as_list (VListSub c xs) = Some xs"
| "as_list v = None"

fun as_tuple :: "val \<Rightarrow> val list option" where
  "as_tuple (VColl c xs) = (if c = ''tuple'' then Some xs else None)"
| "as_tuple v = None"

fun as_set :: "val \<Rightarrow> val list option" where
  "as_set (VSet xs) = Some xs"
| "as_set (VSetSub c xs) = Some xs"
| "as_set (VColl c xs) = (if c = ''frozenset'' then Some xs else None)"
| "as_set v = None"

fun py_lt :: "heap \<Rightarrow> val \<Rightarrow> val \<Rightarrow> error + bool"
  and py_lt_seq :: "heap \<Rightarrow> val list \<Rightarrow> val list \<Rightarrow> error + bool" where
  "py_lt h (VInt i) y = (case y of VInt j \<Rightarrow> Inr (i < j) | _ \<Rightarrow> Inl TypeError)"
| "py_lt h (VStr s) y = (case y of VStr t \<Rightarrow> Inr (s < t) | _ \<Rightarrow> Inl TypeError)"
| "py_lt h (VList xs) y =
    (case as_list y of Some ys \<Rightarrow> py_lt_seq h xs ys | None \<Rightarrow> Inl TypeError)"
| "py_lt h (VListSub c xs) y =
    (case as_list y of Some ys \<Rightarrow> py_lt_seq h xs ys | None \<Rightarrow> Inl TypeError)"
| "py_lt h (VSet xs) y =
    (case as_set y of Some ys \<Rightarrow> Inr (set xs \<subset> set ys) | None \<Rightarrow> Inl TypeError)"
| "py_lt h (VSetSub c xs) y =
    (case as_set y of Some ys \<Rightarrow> Inr (set xs \<subset> set ys) | None \<Rightarrow> Inl TypeError)"
| "py_lt h (VColl c xs) y =
    (if c = ''tuple'' then
       (case as_tuple y of Some ys \<Rightarrow> py_lt_seq h xs ys | None \<Rightarrow> Inl TypeError)
     else if c = ''frozenset'' then
       (case as_set y of Some ys \<Rightarrow> Inr (set xs \<subset> set ys) | None \<Rightarrow> Inl TypeError)
     else Inl TypeError)"
| "py_lt h (VRef a) y =
    (if isinstance_SortableBase h (VRef a) then sortable_lt h a y else Inl TypeError)"
| "py_lt h VNone y = Inl TypeError"
| "py_lt h (VType m c) y = Inl TypeError"
| "py_lt h (VDict kvs) y = Inl TypeError"
| "py_lt h (VDictSub c kvs) y = Inl TypeError"
| "py_lt_seq h [] ys = Inr (ys \<noteq> [])"
| "py_lt_seq h (x # xs) [] = Inr False"
| "py_lt_seq h (x # xs) (y # ys) = (if py_eq x y then py_lt_seq h xs ys else py_lt h x y)"

text \<open>
  Python's \<^verbatim>\<open>sorted\<close> copies its argument to a list and sorts the list as \<^verbatim>\<open>list.sort\<close>
  does: stably, with \<^verbatim>\<open><\<close> as the only comparison, and the first comparison that raises
  ends the sort with its exception. A list of fewer than two elements is returned as it
  is, without a comparison. Otherwise (CPython, \<^verbatim>\<open>Objects/listobject.c\<close>)
  \<^verbatim>\<open>count_run\<close> finds the longest run at the start of the list that is either strictly
  descending, and is then reversed, or has no descent, comparing each element with the
  one before it; and \<^verbatim>\<open>binarysort\<close> inserts the elements after the run one by one,
  each at the place that a binary search of the sorted part gives. A list of 64 elements
  or more is cut into chunks that are sorted in this way and then merged, with the same
  result whenever no comparison raises and \<^verbatim>\<open><\<close> orders the elements consistently;
  the model sorts a list of any length as one chunk.
\<close>

fun run_desc :: "('a \<Rightarrow> 'a \<Rightarrow> error + bool) \<Rightarrow> 'a list \<Rightarrow> 'a list \<Rightarrow> error + ('a list \<times> 'a list)" where
  "run_desc lt acc [] = Inr (acc, [])"
| "run_desc lt acc (z # zs) =
    (case lt z (hd acc) of
       Inl e \<Rightarrow> Inl e
     | Inr b \<Rightarrow> if b then run_desc lt (z # acc) zs else Inr (acc, z # zs))"

fun run_asc :: "('a \<Rightarrow> 'a \<Rightarrow> error + bool) \<Rightarrow> 'a list \<Rightarrow> 'a list \<Rightarrow> error + ('a list \<times> 'a list)" where
  "run_asc lt acc [] = Inr (rev acc, [])"
| "run_asc lt acc (z # zs) =
    (case lt z (hd acc) of
       Inl e \<Rightarrow> Inl e
     | Inr b \<Rightarrow> if b then Inr (rev acc, z # zs) else run_asc lt (z # acc) zs)"

text \<open>
  \<open>count_run lt x0 x1 rest\<close> is the run at the start of \<open>x0 # x1 # rest\<close>, in ascending
  order, and the elements after it. Both loops keep the run with its last element first.
\<close>

definition count_run :: "('a \<Rightarrow> 'a \<Rightarrow> error + bool) \<Rightarrow> 'a \<Rightarrow> 'a \<Rightarrow> 'a list \<Rightarrow> error + ('a list \<times> 'a list)" where
  "count_run lt x0 x1 rest =
    (case lt x1 x0 of
       Inl e \<Rightarrow> Inl e
     | Inr b \<Rightarrow> if b then run_desc lt [x1, x0] rest else run_asc lt [x1, x0] rest)"

text \<open>The binary search of \<^verbatim>\<open>binarysort\<close> for the place of \<open>pivot\<close> in \<open>a\<close>.\<close>

function bisect :: "('a \<Rightarrow> 'a \<Rightarrow> error + bool) \<Rightarrow> 'a \<Rightarrow> 'a list \<Rightarrow> nat \<Rightarrow> nat \<Rightarrow> error + nat" where
  "bisect lt pivot a l r =
    (if l < r then
       (case lt pivot (a ! (l + (r - l) div 2)) of
          Inl e \<Rightarrow> Inl e
        | Inr b \<Rightarrow> if b then bisect lt pivot a l (l + (r - l) div 2)
                  else bisect lt pivot a (l + (r - l) div 2 + 1) r)
     else Inr l)"
  by pat_completeness auto
termination
  by (relation "measure (\<lambda>(lt, pivot, a, l, r). r - l)") auto

declare bisect.simps [simp del]

fun binarysort :: "('a \<Rightarrow> 'a \<Rightarrow> error + bool) \<Rightarrow> 'a list \<Rightarrow> 'a list \<Rightarrow> error + 'a list" where
  "binarysort lt a [] = Inr a"
| "binarysort lt a (pivot # rest) =
    (case bisect lt pivot a 0 (length a) of
       Inl e \<Rightarrow> Inl e
     | Inr l \<Rightarrow> binarysort lt (take l a @ pivot # drop l a) rest)"

fun list_sort :: "('a \<Rightarrow> 'a \<Rightarrow> error + bool) \<Rightarrow> 'a list \<Rightarrow> error + 'a list" where
  "list_sort lt (x0 # x1 # rest) =
    (case count_run lt x0 x1 rest of
       Inl e \<Rightarrow> Inl e
     | Inr (run, rest') \<Rightarrow> binarysort lt run rest')"
| "list_sort lt xs = Inr xs"

definition py_sorted :: "heap \<Rightarrow> val list \<Rightarrow> error + val list" where
  "py_sorted h xs = list_sort (py_lt h) xs"

text \<open>
  A comparison that may raise is a strict total order on a set when it raises for no two
  elements of the set, no element is less than itself, it is transitive, and of any two
  different elements one is less than the other. A list is in no descending order when
  none of its elements is less than an earlier one.
\<close>

definition strict_linear :: "('a \<Rightarrow> 'a \<Rightarrow> error + bool) \<Rightarrow> 'a set \<Rightarrow> bool" where
  "strict_linear lt S =
    ((\<forall>x \<in> S. \<forall>y \<in> S. lt x y = Inr True \<or> lt x y = Inr False)
     \<and> (\<forall>x \<in> S. lt x x \<noteq> Inr True)
     \<and> (\<forall>x \<in> S. \<forall>y \<in> S. \<forall>z \<in> S. lt x y = Inr True \<longrightarrow> lt y z = Inr True \<longrightarrow> lt x z = Inr True)
     \<and> (\<forall>x \<in> S. \<forall>y \<in> S. x \<noteq> y \<longrightarrow> lt x y = Inr True \<or> lt y x = Inr True))"

definition nondescending :: "('a \<Rightarrow> 'a \<Rightarrow> error + bool) \<Rightarrow> 'a list \<Rightarrow> bool" where
  "nondescending lt xs = sorted_wrt (\<lambda>x y. lt y x \<noteq> Inr True) xs"

text \<open>
  The elements of a list are totally ordered by \<^verbatim>\<open><\<close> when they are mutually orderable,
  that is the comparison of any two of them, and of each with itself, does not raise, and
  of any two different elements one is less than the other. A list is ascending when none
  of its elements is less than an earlier one.
\<close>

definition totally_ordered :: "heap \<Rightarrow> val list \<Rightarrow> bool" where
  "totally_ordered h xs =
    (\<forall>x \<in> set xs. \<forall>y \<in> set xs.
       (py_lt h x y = Inr True \<or> py_lt h x y = Inr False)
       \<and> (x \<noteq> y \<longrightarrow> py_lt h x y = Inr True \<or> py_lt h y x = Inr True))"

definition ascending :: "heap \<Rightarrow> val list \<Rightarrow> bool" where
  "ascending h xs = nondescending (py_lt h) xs"

section \<open>The traversal\<close>

text \<open>A \<^verbatim>\<open>for\<close> loop whose body may raise: the first error ends the loop.\<close>

fun for_each :: "('a \<Rightarrow> heap \<Rightarrow> outcome) \<Rightarrow> 'a list \<Rightarrow> heap \<Rightarrow> outcome" where
  "for_each body [] h = (None, h)"
| "for_each body (x # xs) h =
    (case body x h of
       (Some e, h') \<Rightarrow> (Some e, h')
     | (None, h') \<Rightarrow> for_each body xs h')"

lemma for_each_cong [fundef_cong]:
  assumes "xs = ys" and "h = k"
    and "\<And>x h1. x \<in> set ys \<Longrightarrow> f x h1 = g x h1"
  shows "for_each f xs h = for_each g ys k"
  unfolding assms(1,2) using assms(3)
proof (induction ys arbitrary: k)
  case Nil
  show ?case by simp
next
  case (Cons y ys)
  have "f y k = g y k" using Cons.prems by simp
  moreover have "for_each f ys k' = for_each g ys k'" for k'
    using Cons.IH Cons.prems by simp
  ultimately show ?case by (simp split: prod.splits option.splits)
qed

text \<open>
  \<^verbatim>\<open>copy_db_ids(source, target, path)\<close>. The path \<^verbatim>\<open>None\<close> of the default argument and
  the empty path both stand for \<open>[]\<close>.

  The loop over \<^verbatim>\<open>source.__dict__.items()\<close> reads the dictionary of the source while the
  body runs: entry \<open>i\<close> is read when the iteration reaches it, and the iteration raises
  \<^verbatim>\<open>RuntimeError\<close> as soon as it finds that the size of the dictionary has changed, also
  when it is at the end. In the loop over the sorted lists, \<^verbatim>\<open>target[index]\<close> is in range
  since both lists have the same length.
\<close>

function copy_db_ids :: "val \<Rightarrow> val \<Rightarrow> val list \<Rightarrow> heap \<Rightarrow> outcome" where
  "copy_db_ids source target path h =
    (if length path > 10 then (None, h)
     else if type_of h source \<noteq> type_of h target then
       (Some (SQADecodeError path source target
          (DifferentTypes (type_of h source) (type_of h target))), h)
     else if isinstance_Base h source then
       (case (source, target) of
          (VRef a, VRef b) \<Rightarrow>
            (case for_each (\<lambda>i h1.
                    if length (attrs (h1 a)) \<noteq> length (attrs (h a)) then (Some RuntimeError, h1)
                    else (case attrs (h1 a) ! i of (attr, v) \<Rightarrow>
                      if endswith attr ''_db_id'' then (None, setattr h1 b attr v)
                      else if attr = ''_experiment'' \<or> startswith attr ''__'' then (None, h1)
                      else (case getattr h1 b attr of
                              None \<Rightarrow> (Some AttributeError, h1)
                            | Some tv \<Rightarrow> copy_db_ids v tv (path @ [VStr attr]) h1)))
                  [0..<length (attrs (h a))] h of
               (Some e, h') \<Rightarrow> (Some e, h')
             | (None, h') \<Rightarrow>
                 if length (attrs (h' a)) \<noteq> length (attrs (h a)) then (Some RuntimeError, h')
                 else (None, h'))
        | _ \<Rightarrow> (None, h))
     else if isinstance_list_set source then
       (if length (elems source) \<noteq> length (elems target) then
          (Some (SQADecodeError path source target DifferentLengths), h)
        else if length (elems source) = 0 \<or> isinstance_type (hd (elems source)) then (None, h)
        else if isinstance_Base h (hd (elems source))
                \<and> \<not> isinstance_SortableBase h (hd (elems source)) then
          (Some (SQADecodeError path source target
             (CannotSort (type_of h (hd (elems source))))), h)
        else (case py_sorted h (elems source) of
                Inl e \<Rightarrow> (Some e, h)
              | Inr src \<Rightarrow>
                 (case py_sorted h (elems target) of
                    Inl e \<Rightarrow> (Some e, h)
                  | Inr tgt \<Rightarrow>
                      for_each (\<lambda>(index, x, y) h1.
                          copy_db_ids x y (path @ [VStr (str_nat index)]) h1)
                        (zip [0..<length src] (zip src tgt)) h)))
     else if isinstance_dict source then
       for_each (\<lambda>(k, v) h1.
           (case map_of (items target) k of
              None \<Rightarrow> (Some (SQADecodeError path source target (KeyOnlyInSource k)), h1)
            | Some tv \<Rightarrow> copy_db_ids v tv (path @ [k]) h1))
         (items source) h
     else (None, h))"
  by pat_completeness auto
termination
  by (relation "measure (\<lambda>(source, target, path, h). 11 - length path)") auto

declare copy_db_ids.simps [simp del]

text \<open>The call with the default path.\<close>

definition copy_db_ids_default :: "val \<Rightarrow> val \<Rightarrow> heap \<Rightarrow> outcome" where
  "copy_db_ids_default source target h = copy_db_ids source target [] h"

section \<open>The calls of a traversal\<close>

text \<open>
  The bodies of the three loops of the function: over the attributes of the source (lines
  47 to 58), over the sorted elements (lines 81 and 82) and over the items of the source
  dictionary (lines 85 to 91).
\<close>

definition attr_body :: "addr \<Rightarrow> addr \<Rightarrow> val list \<Rightarrow> heap \<Rightarrow> nat \<Rightarrow> heap \<Rightarrow> outcome" where
  "attr_body a b path h i h1 =
    (if length (attrs (h1 a)) \<noteq> length (attrs (h a)) then (Some RuntimeError, h1)
     else (case attrs (h1 a) ! i of (attr, v) \<Rightarrow>
       if endswith attr ''_db_id'' then (None, setattr h1 b attr v)
       else if attr = ''_experiment'' \<or> startswith attr ''__'' then (None, h1)
       else (case getattr h1 b attr of
               None \<Rightarrow> (Some AttributeError, h1)
             | Some tv \<Rightarrow> copy_db_ids v tv (path @ [VStr attr]) h1)))"

definition elem_body :: "val list \<Rightarrow> nat \<times> val \<times> val \<Rightarrow> heap \<Rightarrow> outcome" where
  "elem_body path = (\<lambda>(index, x, y) h1. copy_db_ids x y (path @ [VStr (str_nat index)]) h1)"

definition item_body :: "val \<Rightarrow> val \<Rightarrow> val list \<Rightarrow> val \<times> val \<Rightarrow> heap \<Rightarrow> outcome" where
  "item_body source target path =
    (\<lambda>(k, v) h1.
       (case map_of (items target) k of
          None \<Rightarrow> (Some (SQADecodeError path source target (KeyOnlyInSource k)), h1)
        | Some tv \<Rightarrow> copy_db_ids v tv (path @ [k]) h1))"

text \<open>
  The iterations that a loop starts, each with the heap it starts on: the loop goes on
  to the next element when the body returns, and ends when it raises.
\<close>

fun iterations :: "('a \<Rightarrow> heap \<Rightarrow> outcome) \<Rightarrow> 'a list \<Rightarrow> heap \<Rightarrow> ('a \<times> heap) list" where
  "iterations body [] h = []"
| "iterations body (x # xs) h =
    (x, h) # (case body x h of
                (Some e, h') \<Rightarrow> []
              | (None, h') \<Rightarrow> iterations body xs h')"

text \<open>
  The recursive calls that the call \<^verbatim>\<open>copy_db_ids(source, target, path)\<close> on the heap
  \<open>h\<close> makes itself (lines 58, 82 and 91): the source and the target of each, the
  component it adds to the path, and the heap at the moment of the call.
\<close>

definition subcalls :: "val \<Rightarrow> val \<Rightarrow> val list \<Rightarrow> heap \<Rightarrow> (val \<times> val \<times> val \<times> heap) list" where
  "subcalls source target path h =
    (if length path > 10 \<or> type_of h source \<noteq> type_of h target then []
     else if isinstance_Base h source then
       (case (source, target) of
          (VRef a, VRef b) \<Rightarrow>
            concat (map (\<lambda>(i, h1).
                if length (attrs (h1 a)) \<noteq> length (attrs (h a)) then []
                else (case attrs (h1 a) ! i of (attr, v) \<Rightarrow>
                  if endswith attr ''_db_id'' \<or> attr = ''_experiment'' \<or> startswith attr ''__''
                  then []
                  else (case getattr h1 b attr of
                          None \<Rightarrow> []
                        | Some tv \<Rightarrow> [(v, tv, VStr attr, h1)])))
              (iterations (attr_body a b path h) [0..<length (attrs (h a))] h))
        | _ \<Rightarrow> [])
     else if isinstance_list_set source then
       (if length (elems source) \<noteq> length (elems target) \<or> length (elems source) = 0
           \<or> isinstance_type (hd (elems source))
           \<or> (isinstance_Base h (hd (elems source))
               \<and> \<not> isinstance_SortableBase h (hd (elems source)))
        then []
        else (case py_sorted h (elems source) of
                Inl e \<Rightarrow> []
              | Inr src \<Rightarrow>
                 (case py_sorted h (elems target) of
                    Inl e \<Rightarrow> []
                  | Inr tgt \<Rightarrow>
                      map (\<lambda>((index, x, y), h1). (x, y, VStr (str_nat index), h1))
                        (iterations (elem_body path) (zip [0..<length src] (zip src tgt)) h))))
     else if isinstance_dict source then
       concat (map (\<lambda>((k, v), h1).
           (case map_of (items target) k of
              None \<Rightarrow> []
            | Some tv \<Rightarrow> [(v, tv, k, h1)]))
         (iterations (item_body source target path) (items source) h))
     else [])"

text \<open>
  The calls of a traversal: the call itself, the recursive calls it makes and theirs, each
  as source, target, path and the heap at the moment of the call. A call whose path is
  longer than 10 makes none.
\<close>

function calls :: "val \<Rightarrow> val \<Rightarrow> val list \<Rightarrow> heap \<Rightarrow> (val \<times> val \<times> val list \<times> heap) list" where
  "calls source target path h =
    (source, target, path, h) #
    (if length path > 10 then []
     else concat (map (\<lambda>(s, t, k, h1). calls s t (path @ [k]) h1)
            (subcalls source target path h)))"
  by pat_completeness auto
termination
  by (relation "measure (\<lambda>(source, target, path, h). 11 - length path)") auto

declare calls.simps [simp del]

section \<open>Concrete object graphs\<close>

text \<open>Heaps and values for the examples: \<open>mk_obj\<close> builds an instance of a class that
  defines no attributes, \<open>no_objects\<close> is
  a heap in which no address is in use, and \<open>nested n v\<close> wraps \<open>v\<close> in \<open>n\<close> dictionaries
  with the single key \<^verbatim>\<open>"k"\<close>.\<close>

definition mk_obj :: "string \<Rightarrow> base_kind \<Rightarrow> nat \<Rightarrow> (string \<times> val) list \<Rightarrow> obj" where
  "mk_obj c k n as = \<lparr>cls = PyClass c k [], order_key = n, attrs = as\<rparr>"

definition no_objects :: heap where
  "no_objects = (\<lambda>a. mk_obj ''object'' NotBase 0 [])"

definition nested :: "nat \<Rightarrow> val \<Rightarrow> val" where
  "nested n v = ((\<lambda>x. VDict [(VStr ''k'', x)]) ^^ n) v"

text \<open>A saved trial with one item and its in-memory counterpart with none.\<close>

definition trial_heap :: heap where
  "trial_heap = no_objects
     (0 := mk_obj ''Trial'' Base 0 [(''_db_id'', VInt 1), (''items'', VList [VInt 1])],
      1 := mk_obj ''Trial'' Base 0 [(''_db_id'', VNone), (''items'', VList [])])"

text \<open>A saved trial whose index is a number, and an in-memory one whose index is a string.\<close>

definition index_heap :: heap where
  "index_heap = no_objects
     (0 := mk_obj ''Trial'' Base 0 [(''_db_id'', VInt 1), (''index'', VInt 3)],
      1 := mk_obj ''Trial'' Base 0 [(''_db_id'', VNone), (''index'', VStr ''3'')])"

text \<open>A saved arm and its in-memory counterpart; the class has no order.\<close>

definition arm_heap :: heap where
  "arm_heap = no_objects
     (0 := mk_obj ''Arm'' Base 0 [(''_db_id'', VInt 1)],
      1 := mk_obj ''Arm'' Base 0 [(''_db_id'', VNone)])"

text \<open>A saved experiment with a list of one arm, and its in-memory counterpart.\<close>

definition arms_heap :: heap where
  "arms_heap = no_objects
     (0 := mk_obj ''Experiment'' Base 0 [(''_db_id'', VInt 1), (''arms'', VList [VRef 2])],
      1 := mk_obj ''Experiment'' Base 0 [(''_db_id'', VNone), (''arms'', VList [VRef 3])],
      2 := mk_obj ''Arm'' Base 0 [(''_db_id'', VInt 5)],
      3 := mk_obj ''Arm'' Base 0 [(''_db_id'', VNone)])"

text \<open>Two saved generator runs and their in-memory counterparts.\<close>

definition runs_heap :: heap where
  "runs_heap = no_objects
     (0 := mk_obj ''GeneratorRun'' SortableBase 7 [(''_db_id'', VInt 1)],
      1 := mk_obj ''GeneratorRun'' SortableBase 4 [(''_db_id'', VInt 2)],
      2 := mk_obj ''GeneratorRun'' SortableBase 7 [(''_db_id'', VNone)],
      3 := mk_obj ''GeneratorRun'' SortableBase 4 [(''_db_id'', VNone)])"

text \<open>
  Two saved generator runs with the same place in the natural order, and their in-memory
  counterparts.
\<close>

definition tied_heap :: heap where
  "tied_heap = no_objects
     (0 := mk_obj ''GeneratorRun'' SortableBase 5 [(''_db_id'', VInt 1)],
      1 := mk_obj ''GeneratorRun'' SortableBase 5 [(''_db_id'', VInt 2)],
      2 := mk_obj ''GeneratorRun'' SortableBase 5 [(''_db_id'', VNone)],
      3 := mk_obj ''GeneratorRun'' SortableBase 5 [(''_db_id'', VNone)])"

text \<open>
  The attributes of an object that the traversal follows: all but the identifier fields,
  the back-reference \<^verbatim>\<open>_experiment\<close> and the names that start with two underscores.
\<close>

definition traversed :: "string \<Rightarrow> bool" where
  "traversed attr =
    (\<not> endswith attr ''_db_id'' \<and> attr \<noteq> ''_experiment'' \<and> \<not> startswith attr ''__'')"

text \<open>
  Two heaps are the same but for identifiers when every object has the same class, the
  same place in the natural order and the same other attributes, in the same order.
\<close>

definition nonid_attrs :: "obj \<Rightarrow> (string \<times> val) list" where
  "nonid_attrs ob = filter (\<lambda>p. \<not> endswith (fst p) ''_db_id'') (attrs ob)"

definition same_but_ids :: "heap \<Rightarrow> heap \<Rightarrow> bool" where
  "same_but_ids h h' =
    (\<forall>a. cls (h' a) = cls (h a) \<and> order_key (h' a) = order_key (h a)
         \<and> nonid_attrs (h' a) = nonid_attrs (h a))"

text \<open>
  The objects a value refers to where the traversal can reach them: directly, as an element
  of a list or a set, or as a value of a dictionary. A set of addresses is closed when the
  attributes that the traversal follows lead from its objects to its objects only, those
  of the instance and those of its class.
\<close>

primrec trefs :: "val \<Rightarrow> addr set" where
  "trefs VNone = {}"
| "trefs (VInt i) = {}"
| "trefs (VStr s) = {}"
| "trefs (VType m c) = {}"
| "trefs (VRef a) = {a}"
| "trefs (VList xs) = \<Union> (set (map trefs xs))"
| "trefs (VSet xs) = \<Union> (set (map trefs xs))"
| "trefs (VColl c xs) = {}"
| "trefs (VDict kvs) = \<Union> (set (map snd (map (map_prod trefs trefs) kvs)))"
| "trefs (VListSub c xs) = \<Union> (set (map trefs xs))"
| "trefs (VSetSub c xs) = \<Union> (set (map trefs xs))"
| "trefs (VDictSub c kvs) = \<Union> (set (map snd (map (map_prod trefs trefs) kvs)))"

definition closed :: "heap \<Rightarrow> addr set \<Rightarrow> bool" where
  "closed h T =
    (\<forall>a \<in> T. \<forall>p \<in> set (attrs (h a)) \<union> set (cattrs (cls (h a))).
       traversed (fst p) \<longrightarrow> trefs (snd p) \<subseteq> T)"

text \<open>
  \<open>frame T h h'\<close>: from \<open>h\<close> to \<open>h'\<close> only identifier fields have changed, and only
  in objects of \<open>T\<close>.
\<close>

definition frame :: "addr set \<Rightarrow> heap \<Rightarrow> heap \<Rightarrow> bool" where
  "frame T h h' = ((\<forall>a. a \<notin> T \<longrightarrow> h' a = h a) \<and> same_but_ids h h')"

text \<open>A saved experiment with one arm, and its in-memory counterpart.\<close>

definition pair_heap :: heap where
  "pair_heap = no_objects
     (0 := mk_obj ''Experiment'' Base 0 [(''_db_id'', VInt 1), (''child'', VRef 2)],
      1 := mk_obj ''Experiment'' Base 0 [(''_db_id'', VNone), (''child'', VRef 3)],
      2 := mk_obj ''Arm'' Base 0 [(''_db_id'', VInt 5)],
      3 := mk_obj ''Arm'' Base 0 [(''_db_id'', VNone)])"

text \<open>A saved trial whose back-reference \<^verbatim>\<open>_experiment\<close> is the object it is copied to.\<close>

definition backref_heap :: heap where
  "backref_heap = no_objects
     (0 := mk_obj ''Trial'' Base 0 [(''_db_id'', VInt 1), (''_experiment'', VRef 1)],
      1 := mk_obj ''Trial'' Base 0 [(''_db_id'', VNone), (''_experiment'', VRef 1)])"

text \<open>
  Structural isomorphism of a source and a target along the traversal, looked at down to
  a depth: the two values have the same type; two instances of \<open>Base\<close> have, under
  every attribute of the source that the traversal follows, isomorphic values (and the
  names of the source's attributes are distinct, as the keys of a dictionary are); two
  lists or two sets have the same length and, unless they are empty or hold class
  objects, can be sorted and are isomorphic element by element in sorted order; the
  target of two dictionaries has every key of the source, with an isomorphic value.
  Depth \<open>0\<close> is where the depth guard of the function stops: at a path of length
  \<open>k\<close> the depth left is \<open>11 - k\<close>.
\<close>

fun isomorphic :: "nat \<Rightarrow> heap \<Rightarrow> val \<Rightarrow> val \<Rightarrow> bool" where
  "isomorphic 0 h s t = True"
| "isomorphic (Suc n) h s t =
    (type_of h s = type_of h t \<and>
     (if isinstance_Base h s then
        (case (s, t) of
           (VRef a, VRef b) \<Rightarrow>
             distinct (map fst (attrs (h a))) \<and>
             list_all (\<lambda>(attr, v).
                 traversed attr \<longrightarrow>
                 (case getattr h b attr of
                    None \<Rightarrow> False
                  | Some tv \<Rightarrow> isomorphic n h v tv))
               (attrs (h a))
         | _ \<Rightarrow> False)
      else if isinstance_list_set s then
        length (elems s) = length (elems t) \<and>
        (elems s = [] \<or> isinstance_type (hd (elems s)) \<or>
         (\<not> (isinstance_Base h (hd (elems s)) \<and> \<not> isinstance_SortableBase h (hd (elems s))) \<and>
          (case (py_sorted h (elems s), py_sorted h (elems t)) of
             (Inr src, Inr tgt) \<Rightarrow> list_all (\<lambda>(x, y). isomorphic n h x y) (zip src tgt)
           | _ \<Rightarrow> False)))
      else if isinstance_dict s then
        list_all (\<lambda>(k, v).
            (case map_of (items t) k of
               None \<Rightarrow> False
             | Some tv \<Rightarrow> isomorphic n h v tv))
          (items s)
      else True))"

text \<open>
  The corresponding positions of the two graphs down to a depth: the pairs of a source
  object and the target object it is aligned with.
\<close>

fun pairs :: "nat \<Rightarrow> heap \<Rightarrow> val \<Rightarrow> val \<Rightarrow> (addr \<times> addr) list" where
  "pairs 0 h s t = []"
| "pairs (Suc n) h s t =
    (if isinstance_Base h s then
       (case (s, t) of
          (VRef a, VRef b) \<Rightarrow>
            (a, b) # concat (map (\<lambda>(attr, v).
                if traversed attr then
                  (case getattr h b attr of
                     None \<Rightarrow> []
                   | Some tv \<Rightarrow> pairs n h v tv)
                else [])
              (attrs (h a)))
        | _ \<Rightarrow> [])
     else if isinstance_list_set s then
       (if elems s = [] \<or> isinstance_type (hd (elems s)) then []
        else (case (py_sorted h (elems s), py_sorted h (elems t)) of
                (Inr src, Inr tgt) \<Rightarrow> concat (map (\<lambda>(x, y). pairs n h x y) (zip src tgt))
              | _ \<Rightarrow> []))
     else if isinstance_dict s then
       concat (map (\<lambda>(k, v).
           (case map_of (items t) k of
              None \<Rightarrow> []
            | Some tv \<Rightarrow> pairs n h v tv))
         (items s))
     else [])"

definition positions :: "val list \<Rightarrow> heap \<Rightarrow> val \<Rightarrow> val \<Rightarrow> (addr \<times> addr) set" where
  "positions path h source target = set (pairs (11 - length path) h source target)"

text \<open>
  \<open>syncs P h0 h h'\<close>: every attribute read that differs between \<open>h\<close> and \<open>h'\<close> gives
  in \<open>h'\<close> what the same attribute of a counterpart by \<open>P\<close> gives in \<open>h0\<close>.
  \<open>synced h0 C h\<close>: in \<open>h\<close> every identifier field that a source object of \<open>C\<close> has
  in \<open>h0\<close> is the same in its target object.
\<close>

definition syncs :: "(addr \<times> addr) set \<Rightarrow> heap \<Rightarrow> heap \<Rightarrow> heap \<Rightarrow> bool" where
  "syncs P h0 h h' =
    (\<forall>b nm. getattr h' b nm = getattr h b nm
          \<or> (\<exists>a. (a, b) \<in> P \<and> getattr h' b nm = getattr h0 a nm))"

definition synced :: "heap \<Rightarrow> (addr \<times> addr) set \<Rightarrow> heap \<Rightarrow> bool" where
  "synced h0 C h =
    (\<forall>a b nm. (a, b) \<in> C \<longrightarrow> endswith nm ''_db_id'' \<longrightarrow> nm \<in> fst ` set (attrs (h0 a)) \<longrightarrow>
       getattr h b nm = getattr h0 a nm)"

text \<open>A saved trial and its in-memory counterpart, each with its own owning experiment.\<close>

definition owner_heap :: heap where
  "owner_heap = no_objects
     (0 := mk_obj ''Trial'' Base 0 [(''_db_id'', VInt 1), (''_experiment'', VRef 2)],
      1 := mk_obj ''Trial'' Base 0 [(''_db_id'', VNone), (''_experiment'', VRef 3)],
      2 := mk_obj ''Experiment'' Base 0 [(''_db_id'', VInt 7)],
      3 := mk_obj ''Experiment'' Base 0 [(''_db_id'', VNone)])"

section \<open>Loops\<close>

lemma for_each_raises:
  "for_each body pre h = (None, h1) \<Longrightarrow> body x h1 = (Some e, h2) \<Longrightarrow>
   for_each body (pre @ x # post) h = (Some e, h2)"
  by (induction pre arbitrary: h) (auto split: prod.splits option.splits)

lemma for_each_returns_same:
  assumes "for_each f xs h = (None, h')"
    and "\<And>x h1 h2. x \<in> set xs \<Longrightarrow> f x h1 = (None, h2) \<Longrightarrow> g x h1 = (None, h2)"
  shows "for_each g xs h = (None, h')"
  using assms
proof (induction xs arbitrary: h)
  case Nil
  then show ?case by simp
next
  case (Cons x xs)
  from Cons.prems(1) obtain h1 where fx: "f x h = (None, h1)"
    and rest: "for_each f xs h1 = (None, h')"
    by (auto split: prod.splits option.splits)
  have "g x h = (None, h1)" using Cons.prems(2) fx by simp
  moreover have "for_each g xs h1 = (None, h')"
    using Cons.IH [OF rest] Cons.prems(2) by simp
  ultimately show ?case by simp
qed

lemma iterations_raise:
  "(x, h1) \<in> set (iterations body xs h) \<Longrightarrow> body x h1 = (Some e, h2) \<Longrightarrow>
   for_each body xs h = (Some e, h2)"
proof (induction xs arbitrary: h)
  case Nil
  then show ?case by simp
next
  case (Cons y ys)
  show ?case
  proof (cases "body y h")
    case (Pair r h')
    show ?thesis
    proof (cases r)
      case None
      with Pair Cons.prems(1) have "(x, h1) = (y, h) \<or> (x, h1) \<in> set (iterations body ys h')"
        by simp
      then show ?thesis
      proof
        assume "(x, h1) = (y, h)"
        with Cons.prems(2) Pair None show ?thesis by simp
      next
        assume "(x, h1) \<in> set (iterations body ys h')"
        from Cons.IH [OF this Cons.prems(2)] Pair None show ?thesis by simp
      qed
    next
      case (Some e')
      with Pair Cons.prems(1) have "(x, h1) = (y, h)" by simp
      with Cons.prems(2) Pair Some show ?thesis by simp
    qed
  qed
qed

section \<open>Errors of recursive calls\<close>

text \<open>
  The three loops of the function, and what comes of an error of a recursive call: it
  ends the loop that made the call and every enclosing one, and is the outcome of the
  traversal, with the heap as the failing call has left it.
\<close>

lemma copy_db_ids_object:
  assumes "length path \<le> 10" and "type_of h (VRef a) = type_of h (VRef b)"
    and "isinstance_Base h (VRef a)"
  shows "copy_db_ids (VRef a) (VRef b) path h =
    (case for_each (attr_body a b path h) [0..<length (attrs (h a))] h of
       (Some e, h') \<Rightarrow> (Some e, h')
     | (None, h') \<Rightarrow>
         if length (attrs (h' a)) \<noteq> length (attrs (h a)) then (Some RuntimeError, h')
         else (None, h'))"
  using assms by (subst copy_db_ids.simps) (simp add: attr_body_def [abs_def])

lemma copy_db_ids_elements:
  assumes "length path \<le> 10" and "type_of h source = type_of h target"
    and "\<not> isinstance_Base h source" and "isinstance_list_set source"
    and "length (elems source) = length (elems target)"
    and "elems source \<noteq> []" and "\<not> isinstance_type (hd (elems source))"
    and "\<not> (isinstance_Base h (hd (elems source))
            \<and> \<not> isinstance_SortableBase h (hd (elems source)))"
    and "py_sorted h (elems source) = Inr src" and "py_sorted h (elems target) = Inr tgt"
  shows "copy_db_ids source target path h =
    for_each (elem_body path) (zip [0..<length src] (zip src tgt)) h"
proof -
  have "elems target \<noteq> []" using assms(5,6) by auto
  with assms show ?thesis by (subst copy_db_ids.simps) (auto simp: elem_body_def)
qed

lemma copy_db_ids_items:
  assumes "length path \<le> 10" and "type_of h source = type_of h target"
    and "\<not> isinstance_Base h source" and "\<not> isinstance_list_set source"
    and "isinstance_dict source"
  shows "copy_db_ids source target path h =
    for_each (item_body source target path) (items source) h"
  using assms by (subst copy_db_ids.simps) (simp add: item_body_def)

lemma Base_is_ref: "isinstance_Base h v \<Longrightarrow> \<exists>a. v = VRef a"
  by (cases v) simp_all

lemma same_type_ref: "type_of h (VRef a) = type_of h t \<Longrightarrow> \<exists>b. t = VRef b"
  by (cases t) simp_all

lemma subcalls_raise:
  assumes m: "(s, t, k, h1) \<in> set (subcalls source target path h)"
    and r: "copy_db_ids s t (path @ [k]) h1 = (Some e, h2)"
  shows "copy_db_ids source target path h = (Some e, h2)"
proof -
  from m have len: "length path \<le> 10" and ty: "type_of h source = type_of h target"
    by (auto simp: subcalls_def split: if_splits)
  show ?thesis
  proof (cases "isinstance_Base h source")
    case True
    then obtain a where src: "source = VRef a" using Base_is_ref by blast
    with ty obtain b where tgt: "target = VRef b" using same_type_ref by blast
    from m len ty True src tgt obtain i hi where
      i: "(i, hi) \<in> set (iterations (attr_body a b path h) [0..<length (attrs (h a))] h)"
      and c: "(s, t, k, h1) \<in> set (if length (attrs (hi a)) \<noteq> length (attrs (h a)) then []
                else (case attrs (hi a) ! i of (attr, v) \<Rightarrow>
                  if endswith attr ''_db_id'' \<or> attr = ''_experiment'' \<or> startswith attr ''__''
                  then []
                  else (case getattr hi b attr of
                          None \<Rightarrow> []
                        | Some tv \<Rightarrow> [(v, tv, VStr attr, hi)])))"
      by (auto simp: subcalls_def)
    obtain attr v where av: "attrs (hi a) ! i = (attr, v)" by (cases "attrs (hi a) ! i")
    have sz: "length (attrs (hi a)) = length (attrs (h a))"
      using c by (cases "length (attrs (hi a)) = length (attrs (h a))") simp_all
    have n: "\<not> (endswith attr ''_db_id'' \<or> attr = ''_experiment'' \<or> startswith attr ''__'')"
      using c sz av
      by (cases "endswith attr ''_db_id'' \<or> attr = ''_experiment'' \<or> startswith attr ''__''")
        simp_all
    from c sz av n have c': "(s, t, k, h1) \<in> set (case getattr hi b attr of
                          None \<Rightarrow> []
                        | Some tv \<Rightarrow> [(v, tv, VStr attr, hi)])"
      by (simp only: if_False if_True simp_thms prod.case)
    then have "\<exists>tv. getattr hi b attr = Some tv \<and> (s, t, k, h1) = (v, tv, VStr attr, hi)"
      by (cases "getattr hi b attr") simp_all
    then obtain tv where g: "getattr hi b attr = Some tv"
      and eq: "(s, t, k, h1) = (v, tv, VStr attr, hi)" by blast
    from eq have e: "s = v" "t = tv" "k = VStr attr" and hi: "hi = h1"
      by (simp_all only: prod.inject)
    note i = i [unfolded hi] and av = av [unfolded hi] and sz = sz [unfolded hi]
      and g = g [unfolded hi]
    from n have n': "\<not> endswith attr ''_db_id''" "\<not> (attr = ''_experiment'' \<or> startswith attr ''__'')"
      by blast+
    have "attr_body a b path h i h1 = (Some e, h2)"
      unfolding attr_body_def using sz n' g av r [unfolded e] by (simp only: simp_thms if_False prod.case option.case)
    with i have "for_each (attr_body a b path h) [0..<length (attrs (h a))] h = (Some e, h2)"
      by (rule iterations_raise)
    then show ?thesis
      using len ty True unfolding src tgt by (simp add: copy_db_ids_object)
  next
    case nb: False
    show ?thesis
    proof (cases "isinstance_list_set source")
      case True
      from m len ty nb True have l: "length (elems source) = length (elems target)"
        and ne: "elems source \<noteq> []" and nt: "\<not> isinstance_type (hd (elems source))"
        and c: "\<not> (isinstance_Base h (hd (elems source))
            \<and> \<not> isinstance_SortableBase h (hd (elems source)))"
        by (auto simp: subcalls_def split: if_splits)
      have sc: "subcalls source target path h =
          (case py_sorted h (elems source) of
                Inl e \<Rightarrow> []
              | Inr src \<Rightarrow>
                 (case py_sorted h (elems target) of
                    Inl e \<Rightarrow> []
                  | Inr tgt \<Rightarrow>
                      map (\<lambda>((index, x, y), h1). (x, y, VStr (str_nat index), h1))
                        (iterations (elem_body path) (zip [0..<length src] (zip src tgt)) h)))"
        unfolding subcalls_def using len ty nb True l ne nt c by auto
      from m obtain src where s: "py_sorted h (elems source) = Inr src"
        unfolding sc by (cases "py_sorted h (elems source)") simp_all
      from m obtain tgt where t: "py_sorted h (elems target) = Inr tgt"
        unfolding sc s by (cases "py_sorted h (elems target)") simp_all
      from m have i: "(s, t, k, h1) \<in> set (map (\<lambda>((index, x, y), h1). (x, y, VStr (str_nat index), h1))
                        (iterations (elem_body path) (zip [0..<length src] (zip src tgt)) h))"
        unfolding sc s t by simp
      from i obtain index where
        it: "((index, s, t), h1) \<in> set (iterations (elem_body path) (zip [0..<length src] (zip src tgt)) h)"
        and k: "k = VStr (str_nat index)"
        by auto
      have "elem_body path (index, s, t) h1 = (Some e, h2)"
        using r k by (simp add: elem_body_def)
      with it have "for_each (elem_body path) (zip [0..<length src] (zip src tgt)) h = (Some e, h2)"
        by (rule iterations_raise)
      then show ?thesis
        by (simp add: copy_db_ids_elements [OF len ty nb True l ne nt c s t])
    next
      case nl: False
      from m len ty nb nl have d: "isinstance_dict source"
        by (auto simp: subcalls_def split: if_splits)
      from m len ty nb nl d obtain kk v hi where
        it: "((kk, v), hi) \<in> set (iterations (item_body source target path) (items source) h)"
        and c: "(s, t, k, h1) \<in> set (case map_of (items target) kk of
              None \<Rightarrow> []
            | Some tv \<Rightarrow> [(v, tv, kk, hi)])"
        by (auto simp: subcalls_def)
      from c have "\<exists>tv. map_of (items target) kk = Some tv \<and> (s, t, k, h1) = (v, tv, kk, hi)"
        by (cases "map_of (items target) kk") simp_all
      then obtain tv where g: "map_of (items target) kk = Some tv"
        and eq: "(s, t, k, h1) = (v, tv, kk, hi)" by blast
      from eq have e: "s = v" "t = tv" "k = kk" and hi: "hi = h1"
        by (simp_all only: prod.inject)
      note it = it [unfolded hi]
      have "item_body source target path (kk, v) h1 = (Some e, h2)"
        using g e r by (simp add: item_body_def)
      with it have "for_each (item_body source target path) (items source) h = (Some e, h2)"
        by (rule iterations_raise)
      then show ?thesis
        by (simp add: copy_db_ids_items [OF len ty nb nl d])
    qed
  qed
qed

lemma calls_raise:
  "(s, t, p, h1) \<in> set (calls source target path h) \<Longrightarrow>
   copy_db_ids s t p h1 = (Some e, h2) \<Longrightarrow>
   copy_db_ids source target path h = (Some e, h2)"
proof (induction source target path h rule: calls.induct)
  case (1 source target path h)
  from "1.prems"(1) have "(s, t, p, h1) = (source, target, path, h)
      \<or> (\<not> length path > 10 \<and> (s, t, p, h1) \<in> set (concat (map (\<lambda>(s, t, k, h1).
            calls s t (path @ [k]) h1) (subcalls source target path h))))"
    by (subst (asm) calls.simps) (auto split: if_splits)
  then show ?case
  proof
    assume "(s, t, p, h1) = (source, target, path, h)"
    with "1.prems"(2) show ?thesis by simp
  next
    assume a: "\<not> length path > 10 \<and> (s, t, p, h1) \<in> set (concat (map (\<lambda>(s, t, k, h1).
            calls s t (path @ [k]) h1) (subcalls source target path h)))"
    then obtain s' t' k h' where sc: "(s', t', k, h') \<in> set (subcalls source target path h)"
      and c: "(s, t, p, h1) \<in> set (calls s' t' (path @ [k]) h')"
      by auto
    from a have len: "\<not> 10 < length path" by simp
    have "copy_db_ids s' t' (path @ [k]) h' = (Some e, h2)"
      using "1.IH" [OF len sc _ _ _ c "1.prems"(2)] by simp
    with sc show ?thesis by (rule subcalls_raise)
  qed
qed

section \<open>The depth guard\<close>

text \<open>
  C7. For every source, target and path longer than 10, the call returns without an
  error and leaves the heap as it is: nothing is copied and no mismatch of types, lengths
  or keys is reported, since the guard comes before every check.
\<close>

theorem copy_db_ids_depth_guard:
  "length path > 10 \<Longrightarrow> copy_db_ids source target path h = (None, h)"
  by (simp add: copy_db_ids.simps)

theorem copy_db_ids_depth_guard_witness:
  "length (replicate 11 (VStr ''x'')) > 10 \<and>
   copy_db_ids (VInt 1) (VStr ''a'') (replicate 11 (VStr ''x'')) trial_heap = (None, trial_heap)"
  using copy_db_ids_depth_guard [of "replicate 11 (VStr ''x'')" "VInt 1" "VStr ''a''" trial_heap]
  by simp

section \<open>Collections that are neither lists, sets nor dictionaries\<close>

text \<open>
  C10, as amended. For every pair of values of one type that are instances neither of
  \<open>Base\<close> nor of list, set or dict, so of none of their subclasses either (two tuples,
  say), the call does nothing: it returns without an error and with the heap unchanged,
  whatever the elements and the lengths of the two collections are.
\<close>

theorem copy_db_ids_other_collection:
  assumes "type_of h source = type_of h target" and "\<not> isinstance_Base h source"
    and "\<not> isinstance_list_set source" and "\<not> isinstance_dict source"
  shows "copy_db_ids source target path h = (None, h)"
  using assms by (simp add: copy_db_ids.simps)

theorem copy_db_ids_other_collection_witness:
  "type_of arm_heap (VColl ''tuple'' [VRef 0]) = type_of arm_heap (VColl ''tuple'' [VInt 1, VRef 1]) \<and>
   \<not> isinstance_Base arm_heap (VColl ''tuple'' [VRef 0]) \<and>
   \<not> isinstance_list_set (VColl ''tuple'' [VRef 0]) \<and>
   \<not> isinstance_dict (VColl ''tuple'' [VRef 0]) \<and>
   copy_db_ids (VColl ''tuple'' [VRef 0]) (VColl ''tuple'' [VInt 1, VRef 1]) [] arm_heap
     = (None, arm_heap)"
  using copy_db_ids_other_collection [of arm_heap "VColl ''tuple'' [VRef 0]"
      "VColl ''tuple'' [VInt 1, VRef 1]" "[]"]
  by simp

text \<open>
  C10 as stated fails: an \<^verbatim>\<open>OrderedDict\<close> is of a type other than list, set and dict,
  yet it is an instance of dict and the call goes through its items: it raises
  \<^verbatim>\<open>SQADecodeError\<close> for a key that the target lacks, and copies the identifier of a value.
\<close>

theorem subclass_collection_traversed:
  "type_of arm_heap (VDictSub ''OrderedDict'' [(VStr ''a'', VRef 0)]) = TDictSub ''OrderedDict'' \<and>
   fst (copy_db_ids_default (VDictSub ''OrderedDict'' [(VStr ''a'', VRef 0)])
          (VDictSub ''OrderedDict'' []) arm_heap)
     = Some (SQADecodeError [] (VDictSub ''OrderedDict'' [(VStr ''a'', VRef 0)])
          (VDictSub ''OrderedDict'' []) (KeyOnlyInSource (VStr ''a''))) \<and>
   getattr arm_heap 1 ''_db_id'' = Some VNone \<and>
   getattr (snd (copy_db_ids_default (VDictSub ''OrderedDict'' [(VStr ''a'', VRef 0)])
          (VDictSub ''OrderedDict'' [(VStr ''a'', VRef 1)]) arm_heap)) 1 ''_db_id''
     = Some (VInt 1)"
  by (simp add: copy_db_ids_default_def copy_db_ids.simps arm_heap_def no_objects_def mk_obj_def
      endswith_def startswith_def getattr_def setattr_def)

section \<open>Failure after a write\<close>

text \<open>
  C9. The call is not atomic. For the saved trial at address 0 and the in-memory trial
  at address 1, the call raises \<^verbatim>\<open>SQADecodeError\<close> for the lists of different lengths
  under \<^verbatim>\<open>items\<close>, and by then the \<^verbatim>\<open>_db_id\<close> of the target, which was \<^verbatim>\<open>None\<close>, is
  the one of the source.
\<close>

theorem copy_db_ids_not_atomic:
  "fst (copy_db_ids_default (VRef 0) (VRef 1) trial_heap) =
     Some (SQADecodeError [VStr ''items''] (VList [VInt 1]) (VList []) DifferentLengths) \<and>
   getattr trial_heap 1 ''_db_id'' = Some VNone \<and>
   getattr (snd (copy_db_ids_default (VRef 0) (VRef 1) trial_heap)) 1 ''_db_id'' = Some (VInt 1)"
  by (simp add: copy_db_ids_default_def copy_db_ids.simps trial_heap_def no_objects_def
      mk_obj_def endswith_def startswith_def getattr_def setattr_def)

section \<open>Mismatches of types and lengths\<close>

text \<open>
  C2, as amended. For every call of a traversal whose path is at most 10 long (the root
  call, and every recursive call down to that depth, on the heap at the moment it is
  made), if source and target of the call have different types, the traversal raises
  \<^verbatim>\<open>SQADecodeError\<close> with the path, the source and the target of that call and the
  detail "two objects of different types", and the heap is left as it was at that
  moment.
\<close>

theorem copy_db_ids_type_mismatch:
  assumes "(s, t, p, h1) \<in> set (calls source target path h)"
    and "length p \<le> 10" and "type_of h1 s \<noteq> type_of h1 t"
  shows "copy_db_ids source target path h =
    (Some (SQADecodeError p s t (DifferentTypes (type_of h1 s) (type_of h1 t))), h1)"
proof -
  have "copy_db_ids s t p h1 =
      (Some (SQADecodeError p s t (DifferentTypes (type_of h1 s) (type_of h1 t))), h1)"
    using assms(2,3) by (simp add: copy_db_ids.simps)
  with assms(1) show ?thesis by (rule calls_raise)
qed

theorem copy_db_ids_type_mismatch_witness:
  "(VInt 3, VStr ''3'', [VStr ''index''], setattr index_heap 1 ''_db_id'' (VInt 1))
     \<in> set (calls (VRef 0) (VRef 1) [] index_heap) \<and>
   length [VStr ''index''] \<le> 10 \<and>
   type_of (setattr index_heap 1 ''_db_id'' (VInt 1)) (VInt 3)
     \<noteq> type_of (setattr index_heap 1 ''_db_id'' (VInt 1)) (VStr ''3'') \<and>
   copy_db_ids (VRef 0) (VRef 1) [] index_heap =
     (Some (SQADecodeError [VStr ''index''] (VInt 3) (VStr ''3'') (DifferentTypes TInt TStr)),
      setattr index_heap 1 ''_db_id'' (VInt 1)) \<and>
   (VType ''ABCMeta'' ''SortableBase'', VType ''type'' ''Base'', [], no_objects)
     \<in> set (calls (VType ''ABCMeta'' ''SortableBase'') (VType ''type'' ''Base'') [] no_objects) \<and>
   type_of no_objects (VType ''ABCMeta'' ''SortableBase'')
     \<noteq> type_of no_objects (VType ''type'' ''Base'') \<and>
   copy_db_ids (VType ''ABCMeta'' ''SortableBase'') (VType ''type'' ''Base'') [] no_objects =
     (Some (SQADecodeError [] (VType ''ABCMeta'' ''SortableBase'') (VType ''type'' ''Base'')
        (DifferentTypes (TMeta ''ABCMeta'') (TMeta ''type''))), no_objects)"
proof -
  have m: "(VInt 3, VStr ''3'', [VStr ''index''], setattr index_heap 1 ''_db_id'' (VInt 1))
     \<in> set (calls (VRef 0) (VRef 1) [] index_heap)"
    by (simp add: calls.simps subcalls_def attr_body_def index_heap_def no_objects_def mk_obj_def
        endswith_def startswith_def getattr_def setattr_def)
  have r: "(VType ''ABCMeta'' ''SortableBase'', VType ''type'' ''Base'', [], no_objects)
     \<in> set (calls (VType ''ABCMeta'' ''SortableBase'') (VType ''type'' ''Base'') [] no_objects)"
    by (simp add: calls.simps)
  from copy_db_ids_type_mismatch [OF m] copy_db_ids_type_mismatch [OF r] m r
  show ?thesis by simp
qed

text \<open>
  C2 as stated fails: under eleven nested dictionaries the traversal recurses into a
  position that holds an integer in the source and a string in the target, and the call
  returns.
\<close>

theorem type_mismatch_beyond_depth:
  "type_of no_objects (VInt 1) \<noteq> type_of no_objects (VStr ''a'') \<and>
   copy_db_ids_default (nested 11 (VInt 1)) (nested 11 (VStr ''a'')) no_objects
     = (None, no_objects)"
  by (simp add: copy_db_ids_default_def nested_def copy_db_ids.simps eval_nat_numeral)




section \<open>Dictionaries\<close>

lemma copy_db_ids_dict:
  "length path \<le> 10 \<Longrightarrow>
   copy_db_ids (VDict kvs) (VDict tkvs) path h =
     for_each (\<lambda>(k, v) h1.
         (case map_of tkvs k of
            None \<Rightarrow> (Some (SQADecodeError path (VDict kvs) (VDict tkvs) (KeyOnlyInSource k)), h1)
          | Some tv \<Rightarrow> copy_db_ids v tv (path @ [k]) h1))
       kvs h"
  by (subst copy_db_ids.simps) simp

lemma for_each_never_returns:
  assumes "x \<in> set xs" and "\<And>h1. fst (body x h1) \<noteq> None"
  shows "fst (for_each body xs h) \<noteq> None"
  using assms(1)
proof (induction xs arbitrary: h)
  case Nil
  then show ?case by simp
next
  case (Cons y ys)
  show ?case
  proof (cases "body y h")
    case (Pair r h1)
    show ?thesis
    proof (cases r)
      case (Some e)
      with Pair show ?thesis by simp
    next
      case None
      with Pair assms(2) [of h] have "y \<noteq> x" by auto
      with Cons.prems have "x \<in> set ys" by simp
      from Cons.IH [OF this] Pair None show ?thesis by simp
    qed
  qed
qed




section \<open>Collections without an order\<close>

text \<open>
  C6, as amended. For every call of a traversal whose path is at most 10 long and whose
  source is a list or a set that is not empty, if the first element of the source is an
  instance of \<open>Base\<close> that is not an instance of \<open>SortableBase\<close>, the traversal raises
  \<^verbatim>\<open>SQADecodeError\<close> with the path, the source and the target of that call: for their
  different types or lengths if they differ, and otherwise with the detail "cannot sort
  instances of" the type of the element. The heap is left as it was at the moment of the
  call.
\<close>

theorem copy_db_ids_cannot_sort:
  assumes "(s, t, p, h1) \<in> set (calls source target path h)"
    and "length p \<le> 10" and "isinstance_list_set s" and "elems s = x # xs"
    and "isinstance_Base h1 x" and "\<not> isinstance_SortableBase h1 x"
  shows "copy_db_ids source target path h =
    (Some (SQADecodeError p s t
       (if type_of h1 s \<noteq> type_of h1 t then DifferentTypes (type_of h1 s) (type_of h1 t)
        else if length (elems s) \<noteq> length (elems t) then DifferentLengths
        else CannotSort (type_of h1 x))), h1)"
proof -
  have "\<not> isinstance_Base h1 s"
    using assms(3) by (cases s) simp_all
  moreover have "\<not> isinstance_type x"
    using assms(5) by (cases x) simp_all
  ultimately have "copy_db_ids s t p h1 =
    (Some (SQADecodeError p s t
       (if type_of h1 s \<noteq> type_of h1 t then DifferentTypes (type_of h1 s) (type_of h1 t)
        else if length (elems s) \<noteq> length (elems t) then DifferentLengths
        else CannotSort (type_of h1 x))), h1)"
    using assms(2-6) by (simp add: copy_db_ids.simps)
  with assms(1) show ?thesis by (rule calls_raise)
qed

theorem copy_db_ids_cannot_sort_witness:
  "(VList [VRef 2], VList [VRef 3], [VStr ''arms''], setattr arms_heap 1 ''_db_id'' (VInt 1))
     \<in> set (calls (VRef 0) (VRef 1) [] arms_heap) \<and>
   length [VStr ''arms''] \<le> 10 \<and> isinstance_list_set (VList [VRef 2]) \<and>
   elems (VList [VRef 2]) = [VRef 2] \<and>
   isinstance_Base (setattr arms_heap 1 ''_db_id'' (VInt 1)) (VRef 2) \<and>
   \<not> isinstance_SortableBase (setattr arms_heap 1 ''_db_id'' (VInt 1)) (VRef 2) \<and>
   copy_db_ids (VRef 0) (VRef 1) [] arms_heap =
     (Some (SQADecodeError [VStr ''arms''] (VList [VRef 2]) (VList [VRef 3])
        (CannotSort (TInst (PyClass ''Arm'' Base [])))),
      setattr arms_heap 1 ''_db_id'' (VInt 1))"
proof -
  have m: "(VList [VRef 2], VList [VRef 3], [VStr ''arms''], setattr arms_heap 1 ''_db_id'' (VInt 1))
     \<in> set (calls (VRef 0) (VRef 1) [] arms_heap)"
    by (simp add: calls.simps subcalls_def attr_body_def arms_heap_def no_objects_def mk_obj_def
        endswith_def startswith_def getattr_def setattr_def)
  have b: "isinstance_Base (setattr arms_heap 1 ''_db_id'' (VInt 1)) (VRef 2)"
    "\<not> isinstance_SortableBase (setattr arms_heap 1 ''_db_id'' (VInt 1)) (VRef 2)"
    "type_of (setattr arms_heap 1 ''_db_id'' (VInt 1)) (VRef 2) = TInst (PyClass ''Arm'' Base [])"
    by (simp_all add: arms_heap_def no_objects_def mk_obj_def setattr_def)
  from copy_db_ids_cannot_sort [OF m _ _ _ b(1,2), of "[]"] m b show ?thesis by simp
qed

text \<open>
  C6 as stated fails. \<^verbatim>\<open>None\<close> has no order, yet a one-element list of it is accepted,
  and for a two-element list the error is the \<^verbatim>\<open>TypeError\<close> of \<^verbatim>\<open>sorted\<close>. An arm has
  no order either, yet a tuple of one arm is accepted, and so is a list of one arm under
  eleven nested dictionaries.
\<close>

theorem unordered_first_element_accepted:
  "py_sorted no_objects [VNone, VNone] = Inl TypeError \<and>
   copy_db_ids_default (VList [VNone]) (VList [VNone]) no_objects = (None, no_objects) \<and>
   copy_db_ids_default (VList [VNone, VNone]) (VList [VNone, VNone]) no_objects
     = (Some TypeError, no_objects) \<and>
   isinstance_Base arm_heap (VRef 0) \<and> \<not> isinstance_SortableBase arm_heap (VRef 0) \<and>
   copy_db_ids_default (VColl ''tuple'' [VRef 0]) (VColl ''tuple'' [VRef 1]) arm_heap
     = (None, arm_heap) \<and>
   copy_db_ids_default (nested 11 (VList [VRef 0])) (nested 11 (VList [VRef 1])) arm_heap
     = (None, arm_heap)"
  by (simp add: copy_db_ids_default_def copy_db_ids.simps py_sorted_def count_run_def nested_def
      eval_nat_numeral arm_heap_def no_objects_def mk_obj_def)

section \<open>Alignment by sorting\<close>

text \<open>
  The sort returns a rearrangement of the list. On elements that \<^verbatim>\<open><\<close> orders totally
  no comparison raises, and the result is the ascending rearrangement, of which there is
  one only.
\<close>

lemma run_desc_mset:
  "run_desc lt acc zs = Inr (run, rest) \<Longrightarrow> mset run + mset rest = mset acc + mset zs"
  by (induction zs arbitrary: acc) (auto split: sum.splits if_splits)

lemma run_asc_mset:
  "run_asc lt acc zs = Inr (run, rest) \<Longrightarrow> mset run + mset rest = mset acc + mset zs"
  by (induction zs arbitrary: acc) (auto split: sum.splits if_splits)

lemma binarysort_mset:
  "binarysort lt a rest = Inr ys \<Longrightarrow> mset ys = mset a + mset rest"
proof (induction rest arbitrary: a)
  case Nil
  then show ?case by simp
next
  case (Cons p rest)
  from Cons.prems obtain l where l: "bisect lt p a 0 (length a) = Inr l"
    and r: "binarysort lt (take l a @ p # drop l a) rest = Inr ys"
    by (auto split: sum.splits)
  have "mset (take l a @ p # drop l a) = mset a + {#p#}"
    by (metis add_mset_add_single append_take_drop_id mset.simps(2) mset_append union_mset_add_mset_right)
  with Cons.IH [OF r] show ?case by simp
qed

lemma list_sort_mset: "list_sort lt xs = Inr ys \<Longrightarrow> mset ys = mset xs"
proof (induction lt xs rule: list_sort.induct)
  case (1 lt x0 x1 rest)
  from "1.prems" obtain run rest' where c: "count_run lt x0 x1 rest = Inr (run, rest')"
    and b: "binarysort lt run rest' = Inr ys"
    by (auto split: sum.splits)
  from c have "mset run + mset rest' = mset [x1, x0] + mset rest"
    by (auto simp: count_run_def split: sum.splits if_splits dest: run_desc_mset run_asc_mset)
  with binarysort_mset [OF b] show ?case by (simp add: ac_simps)
qed simp_all

lemma sl_cases:
  assumes "strict_linear lt S" "x \<in> S" "y \<in> S"
  obtains b where "lt x y = Inr b"
  using assms unfolding strict_linear_def by blast

lemma sl_le_trans:
  assumes "strict_linear lt S" "x \<in> S" "y \<in> S" "z \<in> S"
    and "lt y x \<noteq> Inr True" "lt z y \<noteq> Inr True"
  shows "lt z x \<noteq> Inr True"
  using assms unfolding strict_linear_def by metis

lemma sl_lt_le:
  assumes "strict_linear lt S" "x \<in> S" "y \<in> S" "lt x y = Inr True"
  shows "lt y x \<noteq> Inr True"
  using assms unfolding strict_linear_def by metis

lemma sl_lt_le_trans:
  assumes "strict_linear lt S" "x \<in> S" "y \<in> S" "z \<in> S"
    and "lt x y = Inr True" "lt z y \<noteq> Inr True"
  shows "lt x z = Inr True"
  using assms unfolding strict_linear_def by metis

lemma sl_trans:
  assumes "strict_linear lt S" "x \<in> S" "y \<in> S" "z \<in> S"
    and "lt x y = Inr True" "lt y z = Inr True"
  shows "lt x z = Inr True"
  using assms unfolding strict_linear_def by blast

lemma sl_irrefl:
  assumes "strict_linear lt S" "x \<in> S"
  shows "lt x x \<noteq> Inr True"
  using assms unfolding strict_linear_def by blast

lemma sl_antisym:
  assumes "strict_linear lt S" "x \<in> S" "y \<in> S" "lt x y \<noteq> Inr True" "lt y x \<noteq> Inr True"
  shows "x = y"
  using assms unfolding strict_linear_def by metis


lemma nondescending_hd:
  assumes "strict_linear lt S" "set xs \<subseteq> S" "nondescending lt xs" "x \<in> set xs"
  shows "lt x (hd xs) \<noteq> Inr True"
proof (cases xs)
  case Nil
  with assms(4) show ?thesis by simp
next
  case (Cons y ys)
  show ?thesis
  proof (cases "x = y")
    case True
    with assms(2) Cons have "x \<in> S" by simp
    with assms(1) True Cons show ?thesis by (simp add: sl_irrefl)
  next
    case False
    with assms(3,4) Cons show ?thesis by (auto simp: nondescending_def)
  qed
qed

lemma nondescending_last:
  assumes "strict_linear lt S" "set xs \<subseteq> S" "nondescending lt xs" "x \<in> set xs"
  shows "lt (last xs) x \<noteq> Inr True"
proof (cases xs rule: rev_cases)
  case Nil
  with assms(4) show ?thesis by simp
next
  case (snoc ys y)
  show ?thesis
  proof (cases "x = y")
    case True
    with assms(2) snoc have "x \<in> S" by simp
    with assms(1) True snoc show ?thesis by (simp add: sl_irrefl)
  next
    case False
    with assms(3,4) snoc show ?thesis by (auto simp: nondescending_def sorted_wrt_append)
  qed
qed

lemma run_desc_sorted:
  assumes sl: "strict_linear lt S"
  shows "set acc \<subseteq> S \<Longrightarrow> set zs \<subseteq> S \<Longrightarrow> acc \<noteq> [] \<Longrightarrow> nondescending lt acc \<Longrightarrow>
    \<exists>run rest. run_desc lt acc zs = Inr (run, rest) \<and> nondescending lt run"
proof (induction zs arbitrary: acc)
  case Nil
  then show ?case by simp
next
  case (Cons z zs)
  from Cons.prems have zS: "z \<in> S" and hS: "hd acc \<in> S" by auto
  from sl zS hS obtain b where b: "lt z (hd acc) = Inr b" by (rule sl_cases)
  show ?case
  proof (cases b)
    case False
    with b Cons.prems show ?thesis by simp
  next
    case True
    have "lt y z \<noteq> Inr True" if y: "y \<in> set acc" for y
    proof
      assume yz: "lt y z = Inr True"
      from y Cons.prems have yS: "y \<in> S" by auto
      from b True have "lt z (hd acc) = Inr True" by simp
      with sl yS zS hS yz have "lt y (hd acc) = Inr True" by (rule sl_trans)
      with nondescending_hd [OF sl Cons.prems(1,4) y] show False by simp
    qed
    then have "nondescending lt (z # acc)"
      using Cons.prems(4) by (simp add: nondescending_def)
    moreover have "set (z # acc) \<subseteq> S" using zS Cons.prems by simp
    moreover have "set zs \<subseteq> S" using Cons.prems by simp
    ultimately have "\<exists>run rest. run_desc lt (z # acc) zs = Inr (run, rest) \<and> nondescending lt run"
      by (intro Cons.IH) simp_all
    with b True show ?thesis by simp
  qed
qed

lemma run_asc_sorted:
  assumes sl: "strict_linear lt S"
  shows "set acc \<subseteq> S \<Longrightarrow> set zs \<subseteq> S \<Longrightarrow> acc \<noteq> [] \<Longrightarrow> nondescending lt (rev acc) \<Longrightarrow>
    \<exists>run rest. run_asc lt acc zs = Inr (run, rest) \<and> nondescending lt run"
proof (induction zs arbitrary: acc)
  case Nil
  then show ?case by simp
next
  case (Cons z zs)
  from Cons.prems have zS: "z \<in> S" and hS: "hd acc \<in> S" by auto
  from sl zS hS obtain b where b: "lt z (hd acc) = Inr b" by (rule sl_cases)
  show ?case
  proof (cases b)
    case True
    with b Cons.prems show ?thesis by simp
  next
    case False
    have l: "last (rev acc) = hd acc" using Cons.prems(3) by (simp add: last_rev)
    have "lt z y \<noteq> Inr True" if y: "y \<in> set (rev acc)" for y
    proof -
      from y Cons.prems have yS: "y \<in> S" by auto
      have "set (rev acc) \<subseteq> S" using Cons.prems by simp
      from nondescending_last [OF sl this Cons.prems(4) y]
      have 1: "lt (hd acc) y \<noteq> Inr True" by (simp add: l)
      from b False have 2: "lt z (hd acc) \<noteq> Inr True" by simp
      from sl yS hS zS 1 2 show ?thesis by (rule sl_le_trans)
    qed
    then have "nondescending lt (rev (z # acc))"
      using Cons.prems(4) by (simp add: nondescending_def sorted_wrt_append)
    moreover have "set (z # acc) \<subseteq> S" using zS Cons.prems by simp
    moreover have "set zs \<subseteq> S" using Cons.prems by simp
    ultimately have "\<exists>run rest. run_asc lt (z # acc) zs = Inr (run, rest) \<and> nondescending lt run"
      by (intro Cons.IH) simp_all
    with b False show ?thesis by simp
  qed
qed

lemma count_run_sorted:
  assumes sl: "strict_linear lt S" and "x0 \<in> S" "x1 \<in> S" "set rest \<subseteq> S"
  shows "\<exists>run rest'. count_run lt x0 x1 rest = Inr (run, rest') \<and> nondescending lt run"
proof -
  from sl assms(3,2) obtain b where b: "lt x1 x0 = Inr b" by (rule sl_cases)
  show ?thesis
  proof (cases b)
    case True
    from b True have "lt x1 x0 = Inr True" by simp
    with sl assms(3,2) have "lt x0 x1 \<noteq> Inr True" by (rule sl_lt_le)
    then have "nondescending lt [x1, x0]" by (simp add: nondescending_def)
    then have "\<exists>run rest'. run_desc lt [x1, x0] rest = Inr (run, rest') \<and> nondescending lt run"
      using assms by (intro run_desc_sorted [OF sl]) simp_all
    with b True show ?thesis by (simp add: count_run_def)
  next
    case False
    with b have "nondescending lt (rev [x1, x0])" by (simp add: nondescending_def)
    then have "\<exists>run rest'. run_asc lt [x1, x0] rest = Inr (run, rest') \<and> nondescending lt run"
      using assms by (intro run_asc_sorted [OF sl]) simp_all
    with b False show ?thesis by (simp add: count_run_def)
  qed
qed


lemma nondescending_nth:
  assumes "strict_linear lt S" "set a \<subseteq> S" "nondescending lt a" "i \<le> j" "j < length a"
  shows "lt (a ! j) (a ! i) \<noteq> Inr True"
proof (cases "i = j")
  case True
  with assms show ?thesis by (simp add: sl_irrefl subset_iff)
next
  case False
  with assms(4) have "i < j" by simp
  with assms(3,5) show ?thesis by (simp add: nondescending_def sorted_wrt_iff_nth_less)
qed

lemma bisect_sorted:
  "strict_linear lt S \<Longrightarrow> set a \<subseteq> S \<Longrightarrow> pivot \<in> S \<Longrightarrow> nondescending lt a \<Longrightarrow>
    l \<le> r \<Longrightarrow> r \<le> length a \<Longrightarrow>
    \<forall>i < l. lt pivot (a ! i) \<noteq> Inr True \<Longrightarrow>
    \<forall>i. r \<le> i \<and> i < length a \<longrightarrow> lt pivot (a ! i) = Inr True \<Longrightarrow>
    \<exists>k. bisect lt pivot a l r = Inr k \<and> k \<le> length a
        \<and> (\<forall>i < k. lt pivot (a ! i) \<noteq> Inr True)
        \<and> (\<forall>i. k \<le> i \<and> i < length a \<longrightarrow> lt pivot (a ! i) = Inr True)"
proof (induction lt pivot a l r rule: bisect.induct)
  case (1 lt pivot a l r)
  note sl = "1.prems"(1) and aS = "1.prems"(2) and pS = "1.prems"(3) and sa = "1.prems"(4)
    and lr = "1.prems"(5) and rl = "1.prems"(6) and lo = "1.prems"(7) and hi = "1.prems"(8)
  show ?case
  proof (cases "l < r")
    case False
    with lr have "l = r" by simp
    with False rl lo hi show ?thesis by (subst bisect.simps) simp
  next
    case True
    define p where "p = l + (r - l) div 2"
    have p: "l \<le> p" "p < r" using True by (simp_all add: p_def)
    with rl have pl: "p < length a" by simp
    then have apS: "a ! p \<in> S" using aS by (auto simp: subset_iff)
    from sl pS apS obtain b where b: "lt pivot (a ! p) = Inr b" by (rule sl_cases)
    have nS: "a ! i \<in> S" if "i < length a" for i using that aS by (auto simp: subset_iff)
    show ?thesis
    proof (cases b)
      case bt: True
      have hi': "\<forall>i. p \<le> i \<and> i < length a \<longrightarrow> lt pivot (a ! i) = Inr True"
      proof (intro allI impI)
        fix i assume i: "p \<le> i \<and> i < length a"
        then have "lt (a ! i) (a ! p) \<noteq> Inr True"
          using nondescending_nth [OF sl aS sa, of p i] by simp
        moreover from b bt have "lt pivot (a ! p) = Inr True" by simp
        ultimately show "lt pivot (a ! i) = Inr True"
          using sl pS apS nS [of i] i by (meson sl_lt_le_trans)
      qed
      have "\<exists>k. bisect lt pivot a l p = Inr k \<and> k \<le> length a
        \<and> (\<forall>i < k. lt pivot (a ! i) \<noteq> Inr True)
        \<and> (\<forall>i. k \<le> i \<and> i < length a \<longrightarrow> lt pivot (a ! i) = Inr True)"
        unfolding p_def
      proof (rule "1.IH"(1) [OF True _ _ sl aS pS sa])
        show "lt pivot (a ! (l + (r - l) div 2)) = Inr b" using b by (simp add: p_def)
        show b using bt .
        show "l \<le> l + (r - l) div 2" by simp
        show "l + (r - l) div 2 \<le> length a" using pl by (simp add: p_def)
        show "\<forall>i<l. lt pivot (a ! i) \<noteq> Inr True" by (rule lo)
        show "\<forall>i. l + (r - l) div 2 \<le> i \<and> i < length a \<longrightarrow> lt pivot (a ! i) = Inr True"
          using hi' by (simp add: p_def)
      qed
      with True b bt show ?thesis by (subst bisect.simps) (simp add: p_def)
    next
      case bf: False
      have lo': "\<forall>i < p + 1. lt pivot (a ! i) \<noteq> Inr True"
      proof (intro allI impI)
        fix i assume i: "i < p + 1"
        then have il: "i < length a" using pl by simp
        from i have "lt (a ! p) (a ! i) \<noteq> Inr True"
          using nondescending_nth [OF sl aS sa, of i p] pl by simp
        moreover from b bf have "lt pivot (a ! p) \<noteq> Inr True" by simp
        ultimately show "lt pivot (a ! i) \<noteq> Inr True"
          using sl pS apS nS [OF il] by (meson sl_le_trans)
      qed
      have "\<exists>k. bisect lt pivot a (l + (r - l) div 2 + 1) r = Inr k \<and> k \<le> length a
        \<and> (\<forall>i < k. lt pivot (a ! i) \<noteq> Inr True)
        \<and> (\<forall>i. k \<le> i \<and> i < length a \<longrightarrow> lt pivot (a ! i) = Inr True)"
      proof (rule "1.IH"(2) [OF True _ _ sl aS pS sa])
        show "lt pivot (a ! (l + (r - l) div 2)) = Inr b" using b by (simp add: p_def)
        show "\<not> b" using bf .
        show "l + (r - l) div 2 + 1 \<le> r" using p by (simp add: p_def)
        show "r \<le> length a" by (rule rl)
        show "\<forall>i<l + (r - l) div 2 + 1. lt pivot (a ! i) \<noteq> Inr True"
          using lo' by (simp add: p_def)
        show "\<forall>i. r \<le> i \<and> i < length a \<longrightarrow> lt pivot (a ! i) = Inr True" by (rule hi)
      qed
      with True b bf show ?thesis by (subst bisect.simps) (simp add: p_def)
    qed
  qed
qed


lemma insert_sorted:
  assumes sl: "strict_linear lt S" and aS: "set a \<subseteq> S" and pS: "pivot \<in> S"
    and sa: "nondescending lt a" and k: "k \<le> length a"
    and lo: "\<forall>i < k. lt pivot (a ! i) \<noteq> Inr True"
    and hi: "\<forall>i. k \<le> i \<and> i < length a \<longrightarrow> lt pivot (a ! i) = Inr True"
  shows "nondescending lt (take k a @ pivot # drop k a)"
proof -
  have 1: "sorted_wrt (\<lambda>x y. lt y x \<noteq> Inr True) (take k a)"
    using sa by (simp add: nondescending_def sorted_wrt_take)
  have 2: "sorted_wrt (\<lambda>x y. lt y x \<noteq> Inr True) (drop k a)"
    using sa by (simp add: nondescending_def sorted_wrt_drop)
  have 3: "lt pivot x \<noteq> Inr True" if "x \<in> set (take k a)" for x
  proof -
    from that obtain i where "i < k" "i < length a" "x = a ! i"
      by (auto simp: in_set_conv_nth)
    with lo show ?thesis by simp
  qed
  have 4: "lt y pivot \<noteq> Inr True" if "y \<in> set (drop k a)" for y
  proof -
    from that obtain i where i: "k \<le> i" "i < length a" "y = a ! i"
      by (auto simp: in_set_conv_nth) (metis le_add1 add.commute less_diff_conv)
    with hi have "lt pivot y = Inr True" by simp
    moreover from i aS have "y \<in> S" by (auto simp: subset_iff)
    ultimately show ?thesis using sl pS by (meson sl_lt_le)
  qed
  have 5: "lt y x \<noteq> Inr True" if "x \<in> set (take k a)" "y \<in> set (drop k a)" for x y
  proof -
    have "sorted_wrt (\<lambda>x y. lt y x \<noteq> Inr True) (take k a @ drop k a)"
      using sa by (simp add: nondescending_def)
    with that show ?thesis unfolding sorted_wrt_append by blast
  qed
  show ?thesis
    unfolding nondescending_def sorted_wrt_append
    using 1 2 3 4 5 by auto
qed

lemma binarysort_sorted:
  assumes sl: "strict_linear lt S"
  shows "set a \<subseteq> S \<Longrightarrow> set rest \<subseteq> S \<Longrightarrow> nondescending lt a \<Longrightarrow>
    \<exists>ys. binarysort lt a rest = Inr ys \<and> nondescending lt ys"
proof (induction rest arbitrary: a)
  case Nil
  then show ?case by simp
next
  case (Cons p rest)
  from Cons.prems have pS: "p \<in> S" and rS: "set rest \<subseteq> S" by simp_all
  have "\<exists>k. bisect lt p a 0 (length a) = Inr k \<and> k \<le> length a
        \<and> (\<forall>i < k. lt p (a ! i) \<noteq> Inr True)
        \<and> (\<forall>i. k \<le> i \<and> i < length a \<longrightarrow> lt p (a ! i) = Inr True)"
    using sl Cons.prems(1) pS Cons.prems(3) by (rule bisect_sorted) auto
  then obtain k where k: "bisect lt p a 0 (length a) = Inr k" "k \<le> length a"
    "\<forall>i < k. lt p (a ! i) \<noteq> Inr True"
    "\<forall>i. k \<le> i \<and> i < length a \<longrightarrow> lt p (a ! i) = Inr True"
    by blast
  have s: "nondescending lt (take k a @ p # drop k a)"
    using sl Cons.prems(1) pS Cons.prems(3) k(2,3,4) by (rule insert_sorted)
  have "set (take k a @ p # drop k a) \<subseteq> S"
    using Cons.prems(1) pS by (auto dest: in_set_takeD in_set_dropD)
  from Cons.IH [OF this rS s] k(1) show ?case by simp
qed

lemma list_sort_sorted:
  assumes sl: "strict_linear lt S" and xs: "set xs \<subseteq> S"
  shows "\<exists>ys. list_sort lt xs = Inr ys \<and> nondescending lt ys"
proof (cases xs)
  case Nil
  then show ?thesis by (simp add: nondescending_def)
next
  case (Cons x0 xs1)
  show ?thesis
  proof (cases xs1)
    case Nil
    with Cons show ?thesis by (simp add: nondescending_def)
  next
    case (Cons x1 rest)
    with \<open>xs = x0 # xs1\<close> have e: "xs = x0 # x1 # rest" by simp
    with xs have m: "x0 \<in> S" "x1 \<in> S" "set rest \<subseteq> S" by simp_all
    from count_run_sorted [OF sl m]
    obtain run rest' where c: "count_run lt x0 x1 rest = Inr (run, rest')"
      and r: "nondescending lt run" by blast
    have "mset run + mset rest' = mset [x1, x0] + mset rest"
      using c by (auto simp: count_run_def split: sum.splits if_splits dest: run_desc_mset run_asc_mset)
    then have "set_mset (mset run + mset rest') = set_mset (mset [x1, x0] + mset rest)" by simp
    then have "set run \<union> set rest' = insert x1 (insert x0 (set rest))" by simp
    with m have "set run \<subseteq> S" "set rest' \<subseteq> S" by auto
    from binarysort_sorted [OF sl this r] c e show ?thesis by simp
  qed
qed

lemma nondescending_unique:
  assumes sl: "strict_linear lt S"
  shows "set xs \<subseteq> S \<Longrightarrow> nondescending lt xs \<Longrightarrow> nondescending lt ys \<Longrightarrow> mset xs = mset ys \<Longrightarrow>
    xs = ys"
proof (induction xs arbitrary: ys)
  case Nil
  then show ?case by simp
next
  case (Cons x xs)
  from Cons.prems(4) have "ys \<noteq> []" by auto
  then obtain y ys' where ys: "ys = y # ys'" by (cases ys) auto
  have sets: "set (x # xs) = set ys" using Cons.prems(4) by (rule mset_eq_setD)
  with Cons.prems(1) have yS: "set ys \<subseteq> S" by auto
  have "x \<in> set ys" using sets by auto
  then have 1: "lt x y \<noteq> Inr True"
    using nondescending_hd [OF sl yS Cons.prems(3)] ys by simp
  have "y \<in> set (x # xs)" using sets ys by auto
  then have 2: "lt y x \<noteq> Inr True"
    using nondescending_hd [OF sl Cons.prems(1,2)] by simp
  from Cons.prems(1) yS ys have "x \<in> S" "y \<in> S" by simp_all
  with sl 1 2 have xy: "x = y" by (meson sl_antisym)
  with Cons.prems(4) ys have m: "mset xs = mset ys'" by simp
  have "xs = ys'"
    using Cons.prems m ys by (intro Cons.IH) (simp_all add: nondescending_def)
  with xy ys show ?case by simp
qed

lemma list_sort_ordered:
  assumes "strict_linear lt (set xs)" and "mset ys = mset xs" and "nondescending lt ys"
  shows "list_sort lt xs = Inr ys"
proof -
  from list_sort_sorted [OF assms(1) subset_refl]
  obtain zs where zs: "list_sort lt xs = Inr zs" "nondescending lt zs" by blast
  from zs(1) have m: "mset zs = mset xs" by (rule list_sort_mset)
  then have "set zs \<subseteq> set xs" using mset_eq_setD by blast
  from nondescending_unique [OF assms(1) this zs(2) assms(3)] m assms(2)
  have "zs = ys" by simp
  with zs(1) show ?thesis by simp
qed


lemma py_sorted_mset: "py_sorted h xs = Inr ys \<Longrightarrow> mset ys = mset xs"
  unfolding py_sorted_def by (rule list_sort_mset)

lemma py_sorted_set: "py_sorted h xs = Inr ys \<Longrightarrow> set ys = set xs"
  by (drule py_sorted_mset) (rule mset_eq_setD)

text \<open>Python's \<^verbatim>\<open><\<close> is irreflexive and transitive on the values of the model.\<close>

lemma as_list_cases: "as_list y = Some ys \<Longrightarrow> y = VList ys \<or> (\<exists>c. y = VListSub c ys)"
  by (cases y) simp_all

lemma as_tuple_cases: "as_tuple y = Some ys \<Longrightarrow> y = VColl ''tuple'' ys"
  by (cases y) (simp_all split: if_splits)

lemma as_set_cases:
  "as_set y = Some ys \<Longrightarrow> y = VSet ys \<or> (\<exists>c. y = VSetSub c ys) \<or> y = VColl ''frozenset'' ys"
  by (cases y) (simp_all split: if_splits)

lemma py_lt_irrefl_aux:
  "x = y \<longrightarrow> py_lt h x y \<noteq> Inr True"
  "xs = ys \<longrightarrow> py_lt_seq h xs ys \<noteq> Inr True"
  by (induction h x y and h xs ys rule: py_lt_py_lt_seq.induct)
    (auto simp: sortable_lt_def py_eq_def split: if_splits)

lemma py_lt_irrefl: "py_lt h x x \<noteq> Inr True"
  using py_lt_irrefl_aux(1) [of x x h] by simp


lemma as_set_lt:
  "as_set y = Some ys \<Longrightarrow> py_lt h y z = Inr True \<Longrightarrow>
   \<exists>zs. as_set z = Some zs \<and> set ys \<subset> set zs"
  by (drule as_set_cases) (auto split: option.splits if_splits)

lemma set_lt_trans:
  assumes "as_set y = Some ys" and "set xs \<subset> set ys" and "py_lt h y z = Inr True"
  shows "\<exists>zs. as_set z = Some zs \<and> set xs \<subset> set zs"
proof -
  from as_set_lt [OF assms(1,3)] obtain zs where "as_set z = Some zs" "set ys \<subset> set zs"
    by blast
  with assms(2) show ?thesis by (blast intro: psubset_trans)
qed

lemma py_lt_trans_aux:
  "\<forall>z. py_lt h x y = Inr True \<longrightarrow> py_lt h y z = Inr True \<longrightarrow> py_lt h x z = Inr True"
  "\<forall>zs. py_lt_seq h xs ys = Inr True \<longrightarrow> py_lt_seq h ys zs = Inr True \<longrightarrow>
     py_lt_seq h xs zs = Inr True"
proof (induction h x y and h xs ys rule: py_lt_py_lt_seq.induct)
  case (1 h i y)
  show ?case by (auto split: val.splits)
next
  case (2 h s y)
  show ?case by (auto split: val.splits)
next
  case (3 h xs y)
  show ?case
  proof (intro allI impI)
    fix z assume a: "py_lt h (VList xs) y = Inr True" and b: "py_lt h y z = Inr True"
    from a obtain ys where ys: "as_list y = Some ys" and 1: "py_lt_seq h xs ys = Inr True"
      by (auto split: option.splits)
    from b ys obtain zs where zs: "as_list z = Some zs" and 2: "py_lt_seq h ys zs = Inr True"
      by (auto dest!: as_list_cases split: option.splits)
    from "3.IH" [OF ys] 1 2 have "py_lt_seq h xs zs = Inr True" by blast
    with zs show "py_lt h (VList xs) z = Inr True" by simp
  qed
next
  case (4 h c xs y)
  show ?case
  proof (intro allI impI)
    fix z assume a: "py_lt h (VListSub c xs) y = Inr True" and b: "py_lt h y z = Inr True"
    from a obtain ys where ys: "as_list y = Some ys" and 1: "py_lt_seq h xs ys = Inr True"
      by (auto split: option.splits)
    from b ys obtain zs where zs: "as_list z = Some zs" and 2: "py_lt_seq h ys zs = Inr True"
      by (auto dest!: as_list_cases split: option.splits)
    from "4.IH" [OF ys] 1 2 have "py_lt_seq h xs zs = Inr True" by blast
    with zs show "py_lt h (VListSub c xs) z = Inr True" by simp
  qed
next
  case (5 h xs y)
  show ?case
  proof (intro allI impI)
    fix z assume a: "py_lt h (VSet xs) y = Inr True" and b: "py_lt h y z = Inr True"
    from a obtain ys where "as_set y = Some ys" "set xs \<subset> set ys"
      by (auto split: option.splits)
    from set_lt_trans [OF this b] show "py_lt h (VSet xs) z = Inr True" by auto
  qed
next
  case (6 h c xs y)
  show ?case
  proof (intro allI impI)
    fix z assume a: "py_lt h (VSetSub c xs) y = Inr True" and b: "py_lt h y z = Inr True"
    from a obtain ys where "as_set y = Some ys" "set xs \<subset> set ys"
      by (auto split: option.splits)
    from set_lt_trans [OF this b] show "py_lt h (VSetSub c xs) z = Inr True" by auto
  qed
next
  case (7 h c xs y)
  show ?case
  proof (intro allI impI)
    fix z assume a: "py_lt h (VColl c xs) y = Inr True" and b: "py_lt h y z = Inr True"
    show "py_lt h (VColl c xs) z = Inr True"
    proof (cases "c = ''tuple''")
      case True
      from a True obtain ys where ys: "as_tuple y = Some ys" and 1: "py_lt_seq h xs ys = Inr True"
        by (auto split: option.splits)
      from ys have y: "y = VColl ''tuple'' ys" by (rule as_tuple_cases)
      from b y obtain zs where zs: "as_tuple z = Some zs" and 2: "py_lt_seq h ys zs = Inr True"
        by (auto split: option.splits)
      from "7.IH" [OF True ys] 1 2 have "py_lt_seq h xs zs = Inr True" by blast
      with zs True show ?thesis by simp
    next
      case False
      with a have f: "c = ''frozenset''" by (auto split: if_splits)
      with a False obtain ys where "as_set y = Some ys" "set xs \<subset> set ys"
        by (auto split: option.splits)
      from set_lt_trans [OF this b] f show ?thesis by auto
    qed
  qed
next
  case (8 h a y)
  show ?case
    by (auto simp: sortable_lt_def split: val.splits if_splits)
next
  case (13 h ys)
  show ?case
  proof (intro allI impI)
    fix zs assume "py_lt_seq h [] ys = Inr True" and b: "py_lt_seq h ys zs = Inr True"
    then have "ys \<noteq> []" by simp
    with b have "zs \<noteq> []" by (cases ys; cases zs) simp_all
    then show "py_lt_seq h [] zs = Inr True" by simp
  qed
next
  case (15 h x xs y ys)
  show ?case
  proof (intro allI impI)
    fix zs
    assume a: "py_lt_seq h (x # xs) (y # ys) = Inr True"
      and b: "py_lt_seq h (y # ys) zs = Inr True"
    from b obtain z zs' where zs: "zs = z # zs'" by (cases zs) simp_all
    show "py_lt_seq h (x # xs) zs = Inr True"
    proof (cases "x = y")
      case xy: True
      with a have 1: "py_lt_seq h xs ys = Inr True" by (simp add: py_eq_def)
      show ?thesis
      proof (cases "y = z")
        case True
        with b zs have 2: "py_lt_seq h ys zs' = Inr True" by (simp add: py_eq_def)
        from "15.IH"(1) xy 1 2 have "py_lt_seq h xs zs' = Inr True" by (simp add: py_eq_def)
        with xy True zs show ?thesis by (simp add: py_eq_def)
      next
        case False
        with b zs have "py_lt h y z = Inr True" by (simp add: py_eq_def)
        with xy False zs show ?thesis by (simp add: py_eq_def)
      qed
    next
      case xy: False
      with a have 1: "py_lt h x y = Inr True" by (simp add: py_eq_def)
      show ?thesis
      proof (cases "y = z")
        case True
        with xy 1 zs show ?thesis by (simp add: py_eq_def)
      next
        case yz: False
        with b zs have 2: "py_lt h y z = Inr True" by (simp add: py_eq_def)
        from "15.IH"(2) xy 1 2 have 3: "py_lt h x z = Inr True" by (simp add: py_eq_def)
        have "x \<noteq> z" using 3 py_lt_irrefl [of h x] by auto
        with 3 zs show ?thesis by (simp add: py_eq_def)
      qed
    qed
  qed
qed simp_all

lemma py_lt_trans:
  "py_lt h x y = Inr True \<Longrightarrow> py_lt h y z = Inr True \<Longrightarrow> py_lt h x z = Inr True"
  using py_lt_trans_aux(1) by blast

lemma totally_ordered_linear:
  assumes "totally_ordered h xs"
  shows "strict_linear (py_lt h) (set xs)"
  unfolding strict_linear_def
proof (intro conjI ballI impI)
  fix x y assume "x \<in> set xs" "y \<in> set xs"
  with assms show "py_lt h x y = Inr True \<or> py_lt h x y = Inr False"
    unfolding totally_ordered_def by blast
next
  fix x show "py_lt h x x \<noteq> Inr True" by (rule py_lt_irrefl)
next
  fix x y z assume "py_lt h x y = Inr True" "py_lt h y z = Inr True"
  then show "py_lt h x z = Inr True" by (rule py_lt_trans)
next
  fix x y assume "x \<in> set xs" "y \<in> set xs" "x \<noteq> y"
  with assms show "py_lt h x y = Inr True \<or> py_lt h y x = Inr True"
    unfolding totally_ordered_def by blast
qed

lemma py_sorted_ordered:
  assumes "totally_ordered h xs" and "mset ys = mset xs" and "ascending h ys"
  shows "py_sorted h xs = Inr ys"
  using totally_ordered_linear [OF assms(1)] assms(2,3) unfolding py_sorted_def ascending_def
  by (rule list_sort_ordered)

lemma totally_ordered_hd:
  assumes "totally_ordered h xs" and "xs \<noteq> []"
  shows "\<not> isinstance_type (hd xs)"
    and "\<not> (isinstance_Base h (hd xs) \<and> \<not> isinstance_SortableBase h (hd xs))"
proof -
  from assms(2) have "hd xs \<in> set xs" by simp
  with assms(1) have k: "py_lt h (hd xs) (hd xs) = Inr True \<or> py_lt h (hd xs) (hd xs) = Inr False"
    unfolding totally_ordered_def by blast
  then show "\<not> isinstance_type (hd xs)"
    by (cases "hd xs") auto
  from k show "\<not> (isinstance_Base h (hd xs) \<and> \<not> isinstance_SortableBase h (hd xs))"
    by (cases "hd xs") (auto split: if_splits)
qed

lemma copy_db_ids_sorted_elems:
  assumes "isinstance_list_set source" and "type_of h source = type_of h target"
    and "length (elems source) = length (elems target)"
    and "totally_ordered h (elems source)"
  shows "copy_db_ids source target path h =
    (if length path > 10 \<or> elems source = [] then (None, h)
     else (case py_sorted h (elems source) of
             Inl e \<Rightarrow> (Some e, h)
           | Inr src \<Rightarrow>
              (case py_sorted h (elems target) of
                 Inl e \<Rightarrow> (Some e, h)
               | Inr tgt \<Rightarrow>
                   for_each (\<lambda>(index, x, y) h1.
                       copy_db_ids x y (path @ [VStr (str_nat index)]) h1)
                     (zip [0..<length src] (zip src tgt)) h)))"
proof -
  have nb: "\<not> isinstance_Base h source"
    using assms(1) by (cases source) simp_all
  show ?thesis
  proof (cases "elems source = []")
    case True
    with nb assms show ?thesis by (subst copy_db_ids.simps) simp
  next
    case False
    note hd = totally_ordered_hd [OF assms(4) False]
    from False nb assms hd show ?thesis by (subst copy_db_ids.simps) auto
  qed
qed

text \<open>
  C4, as amended. Let source and target be two lists, or two sets, of one type and of
  equal length, each with elements that \<^verbatim>\<open><\<close> orders totally: no comparison raises and
  of two different elements one is less than the other. Then the outcome of the call (the
  error, if any, and the heap it leaves) is the same for every other order in which the
  elements of either collection are given; and at a path at most 10 long it is the
  outcome of the copies from the elements of the source to those of the target, both in
  ascending order and paired by position, with the path extended by the position.
\<close>

theorem copy_db_ids_order_independent:
  assumes "isinstance_list_set source" and "isinstance_list_set source'"
    and "type_of h source = type_of h target" and "type_of h source' = type_of h target'"
    and "length (elems source) = length (elems target)"
    and "totally_ordered h (elems source)" and "totally_ordered h (elems target)"
    and "mset (elems source') = mset (elems source)"
    and "mset (elems target') = mset (elems target)"
    and "mset src = mset (elems source)" and "ascending h src"
    and "mset tgt = mset (elems target)" and "ascending h tgt"
  shows "copy_db_ids source' target' path h = copy_db_ids source target path h
       \<and> copy_db_ids source target path h =
           (if length path > 10 then (None, h)
            else for_each (\<lambda>(index, x, y) h1.
                     copy_db_ids x y (path @ [VStr (str_nat index)]) h1)
                   (zip [0..<length src] (zip src tgt)) h)"
proof -
  have sets: "set (elems source') = set (elems source)"
    using assms(8) by (rule mset_eq_setD)
  have sett: "set (elems target') = set (elems target)"
    using assms(9) by (rule mset_eq_setD)
  have to: "totally_ordered h (elems source')"
    using assms(6) sets by (simp add: totally_ordered_def)
  have tt: "totally_ordered h (elems target')"
    using assms(7) sett by (simp add: totally_ordered_def)
  have s: "py_sorted h (elems source) = Inr src"
    using assms(6,10,11) by (rule py_sorted_ordered)
  have t: "py_sorted h (elems target) = Inr tgt"
    using assms(7,12,13) by (rule py_sorted_ordered)
  have s': "py_sorted h (elems source') = Inr src"
    using to assms(10,11) unfolding assms(8) [symmetric] by (rule py_sorted_ordered)
  have t': "py_sorted h (elems target') = Inr tgt"
    using tt assms(12,13) unfolding assms(9) [symmetric] by (rule py_sorted_ordered)
  have len: "length (elems source') = length (elems target')"
    using assms(5) mset_eq_length [OF assms(8)] mset_eq_length [OF assms(9)] by simp
  have e: "(elems source' = []) = (elems source = [])"
    using sets by (metis set_empty)
  have n: "elems source = [] \<Longrightarrow> src = []"
    using assms(10) by simp
  have 1: "copy_db_ids source target path h =
           (if length path > 10 then (None, h)
            else for_each (\<lambda>(index, x, y) h1.
                     copy_db_ids x y (path @ [VStr (str_nat index)]) h1)
                   (zip [0..<length src] (zip src tgt)) h)"
    unfolding copy_db_ids_sorted_elems [OF assms(1,3,5,6)] using n by (simp add: s t)
  have 2: "copy_db_ids source' target' path h =
           (if length path > 10 then (None, h)
            else for_each (\<lambda>(index, x, y) h1.
                     copy_db_ids x y (path @ [VStr (str_nat index)]) h1)
                   (zip [0..<length src] (zip src tgt)) h)"
    unfolding copy_db_ids_sorted_elems [OF assms(2,4) len to] using n e by (simp add: s' t')
  from 1 2 show ?thesis by simp
qed


theorem copy_db_ids_order_independent_witness:
  "isinstance_list_set (VList [VRef 0, VRef 1]) \<and> isinstance_list_set (VList [VRef 1, VRef 0]) \<and>
   type_of runs_heap (VList [VRef 0, VRef 1]) = type_of runs_heap (VList [VRef 3, VRef 2]) \<and>
   type_of runs_heap (VList [VRef 1, VRef 0]) = type_of runs_heap (VList [VRef 2, VRef 3]) \<and>
   length (elems (VList [VRef 0, VRef 1])) = length (elems (VList [VRef 3, VRef 2])) \<and>
   mset (elems (VList [VRef 1, VRef 0])) = mset (elems (VList [VRef 0, VRef 1])) \<and>
   mset (elems (VList [VRef 2, VRef 3])) = mset (elems (VList [VRef 3, VRef 2])) \<and>
   mset [VRef 1, VRef 0] = mset (elems (VList [VRef 0, VRef 1])) \<and>
   mset [VRef 3, VRef 2] = mset (elems (VList [VRef 3, VRef 2])) \<and>
   totally_ordered runs_heap (elems (VList [VRef 0, VRef 1])) \<and>
   totally_ordered runs_heap (elems (VList [VRef 3, VRef 2])) \<and>
   ascending runs_heap [VRef 1, VRef 0] \<and> ascending runs_heap [VRef 3, VRef 2] \<and>
   py_lt runs_heap (VRef 1) (VRef 0) = Inr True \<and> py_lt runs_heap (VRef 3) (VRef 2) = Inr True \<and>
   copy_db_ids (VList [VRef 1, VRef 0]) (VList [VRef 2, VRef 3]) [] runs_heap =
     copy_db_ids (VList [VRef 0, VRef 1]) (VList [VRef 3, VRef 2]) [] runs_heap \<and>
   copy_db_ids (VList [VRef 0, VRef 1]) (VList [VRef 3, VRef 2]) [] runs_heap =
     for_each (\<lambda>(index, x, y) h1. copy_db_ids x y ([] @ [VStr (str_nat index)]) h1)
       (zip [0..<length [VRef 1, VRef 0]] (zip [VRef 1, VRef 0] [VRef 3, VRef 2])) runs_heap \<and>
   fst (copy_db_ids (VList [VRef 0, VRef 1]) (VList [VRef 3, VRef 2]) [] runs_heap) = None \<and>
   getattr (snd (copy_db_ids (VList [VRef 0, VRef 1]) (VList [VRef 3, VRef 2]) [] runs_heap)) 2 ''_db_id''
     = Some (VInt 1) \<and>
   getattr (snd (copy_db_ids (VList [VRef 0, VRef 1]) (VList [VRef 3, VRef 2]) [] runs_heap)) 3 ''_db_id''
     = Some (VInt 2)"
proof -
  have lt: "py_lt runs_heap (VRef 1) (VRef 0) = Inr True" "py_lt runs_heap (VRef 3) (VRef 2) = Inr True"
    by (simp_all add: sortable_lt_def runs_heap_def no_objects_def mk_obj_def)
  have o1: "totally_ordered runs_heap (elems (VList [VRef 0, VRef 1]))"
    by (simp add: totally_ordered_def sortable_lt_def runs_heap_def no_objects_def mk_obj_def)
  have o2: "totally_ordered runs_heap (elems (VList [VRef 3, VRef 2]))"
    by (simp add: totally_ordered_def sortable_lt_def runs_heap_def no_objects_def mk_obj_def)
  have a1: "ascending runs_heap [VRef 1, VRef 0]"
    by (simp add: ascending_def nondescending_def sortable_lt_def runs_heap_def no_objects_def mk_obj_def)
  have a2: "ascending runs_heap [VRef 3, VRef 2]"
    by (simp add: ascending_def nondescending_def sortable_lt_def runs_heap_def no_objects_def mk_obj_def)
  have m1: "mset (elems (VList [VRef 1, VRef 0])) = mset (elems (VList [VRef 0, VRef 1]))"
    by simp
  have m2: "mset (elems (VList [VRef 2, VRef 3])) = mset (elems (VList [VRef 3, VRef 2]))"
    by simp
  have m3: "mset [VRef 1, VRef 0] = mset (elems (VList [VRef 0, VRef 1]))"
    by simp
  have m4: "mset [VRef 3, VRef 2] = mset (elems (VList [VRef 3, VRef 2]))"
    by simp
  have b: "isinstance_list_set (VList [VRef 0, VRef 1])" "isinstance_list_set (VList [VRef 1, VRef 0])"
    "type_of runs_heap (VList [VRef 0, VRef 1]) = type_of runs_heap (VList [VRef 3, VRef 2])"
    "type_of runs_heap (VList [VRef 1, VRef 0]) = type_of runs_heap (VList [VRef 2, VRef 3])"
    "length (elems (VList [VRef 0, VRef 1])) = length (elems (VList [VRef 3, VRef 2]))"
    by simp_all
  note t = copy_db_ids_order_independent [OF b o1 o2 m1 m2 m3 a1 m4 a2, of "[]"]
  from t have e: "copy_db_ids (VList [VRef 1, VRef 0]) (VList [VRef 2, VRef 3]) [] runs_heap =
      copy_db_ids (VList [VRef 0, VRef 1]) (VList [VRef 3, VRef 2]) [] runs_heap"
    by (rule conjunct1)
  from t have f: "copy_db_ids (VList [VRef 0, VRef 1]) (VList [VRef 3, VRef 2]) [] runs_heap =
     for_each (\<lambda>(index, x, y) h1. copy_db_ids x y ([] @ [VStr (str_nat index)]) h1)
       (zip [0..<length [VRef 1, VRef 0]] (zip [VRef 1, VRef 0] [VRef 3, VRef 2])) runs_heap"
    by simp
  have r1: "fst (for_each (\<lambda>(index, x, y) h1. copy_db_ids x y ([] @ [VStr (str_nat index)]) h1)
       (zip [0..<length [VRef 1, VRef 0]] (zip [VRef 1, VRef 0] [VRef 3, VRef 2])) runs_heap) = None"
    by (simp add: copy_db_ids.simps runs_heap_def no_objects_def mk_obj_def
        endswith_def startswith_def getattr_def setattr_def upt_rec)
  have r2: "getattr (snd (for_each (\<lambda>(index, x, y) h1. copy_db_ids x y ([] @ [VStr (str_nat index)]) h1)
       (zip [0..<length [VRef 1, VRef 0]] (zip [VRef 1, VRef 0] [VRef 3, VRef 2])) runs_heap)) 2 ''_db_id''
       = Some (VInt 1)"
    by (simp add: copy_db_ids.simps runs_heap_def no_objects_def mk_obj_def
        endswith_def startswith_def getattr_def setattr_def upt_rec)
  have r3: "getattr (snd (for_each (\<lambda>(index, x, y) h1. copy_db_ids x y ([] @ [VStr (str_nat index)]) h1)
       (zip [0..<length [VRef 1, VRef 0]] (zip [VRef 1, VRef 0] [VRef 3, VRef 2])) runs_heap)) 3 ''_db_id''
       = Some (VInt 2)"
    by (simp add: copy_db_ids.simps runs_heap_def no_objects_def mk_obj_def
        endswith_def startswith_def getattr_def setattr_def upt_rec)
  from b m1 m2 m3 m4 o1 o2 a1 a2 lt e f r1 [folded f] r2 [folded f] r3 [folded f]
  show ?thesis by blast
qed

text \<open>
  C4 as stated fails. Two generator runs with the same place in the natural order can be
  compared, neither is less than the other, and \<^verbatim>\<open>sorted\<close> keeps them in the order in
  which they are given: the first target receives the identifier 1 for one order of the
  source and 2 for the other. And where the elements do have different places, the
  targets in a tuple, in a list under eleven nested dictionaries, or in a set when the
  source is a list, receive no identifier.
\<close>

theorem tied_elements_order_dependent:
  "py_lt tied_heap (VRef 0) (VRef 1) = Inr False \<and> py_lt tied_heap (VRef 1) (VRef 0) = Inr False \<and>
   py_lt tied_heap (VRef 2) (VRef 3) = Inr False \<and> py_lt tied_heap (VRef 3) (VRef 2) = Inr False \<and>
   getattr (snd (copy_db_ids_default (VList [VRef 0, VRef 1]) (VList [VRef 2, VRef 3]) tied_heap))
     2 ''_db_id'' = Some (VInt 1) \<and>
   getattr (snd (copy_db_ids_default (VList [VRef 1, VRef 0]) (VList [VRef 2, VRef 3]) tied_heap))
     2 ''_db_id'' = Some (VInt 2) \<and>
   py_lt runs_heap (VRef 1) (VRef 0) = Inr True \<and> py_lt runs_heap (VRef 3) (VRef 2) = Inr True \<and>
   copy_db_ids_default (VColl ''tuple'' [VRef 0, VRef 1]) (VColl ''tuple'' [VRef 2, VRef 3]) runs_heap
     = (None, runs_heap) \<and>
   copy_db_ids_default (nested 11 (VList [VRef 0, VRef 1])) (nested 11 (VList [VRef 2, VRef 3]))
     runs_heap = (None, runs_heap) \<and>
   copy_db_ids_default (VList [VRef 0, VRef 1]) (VSet [VRef 2, VRef 3]) runs_heap
     = (Some (SQADecodeError [] (VList [VRef 0, VRef 1]) (VSet [VRef 2, VRef 3])
          (DifferentTypes TList TSet)), runs_heap)"
  by (simp add: copy_db_ids_default_def copy_db_ids.simps py_sorted_def count_run_def nested_def
      eval_nat_numeral sortable_lt_def tied_heap_def runs_heap_def no_objects_def mk_obj_def
      endswith_def startswith_def getattr_def setattr_def)

section \<open>What the call writes\<close>

lemma for_each_invariant:
  assumes "I h" and "\<And>x h1. x \<in> set xs \<Longrightarrow> I h1 \<Longrightarrow> I (snd (body x h1))"
  shows "I (snd (for_each body xs h))"
  using assms
proof (induction xs arbitrary: h)
  case Nil
  then show ?case by simp
next
  case (Cons x xs)
  have step: "I (snd (body x h))" using Cons.prems by simp
  show ?case
  proof (cases "body x h")
    case (Pair r h1)
    with step have i1: "I h1" by simp
    show ?thesis
    proof (cases r)
      case None
      have "I (snd (for_each body xs h1))"
        using i1 Cons.prems(2) by (intro Cons.IH) simp_all
      with Pair None show ?thesis by simp
    next
      case (Some e)
      with Pair i1 show ?thesis by simp
    qed
  qed
qed

lemma nonid_update:
  "endswith nm ''_db_id'' \<Longrightarrow>
   filter (\<lambda>p. \<not> endswith (fst p) ''_db_id'') (AList.update nm v ps)
     = filter (\<lambda>p. \<not> endswith (fst p) ''_db_id'') ps"
  by (induction ps) auto

lemma frame_refl: "frame T h h"
  by (simp add: frame_def same_but_ids_def)

lemma frame_trans: "frame T h h1 \<Longrightarrow> frame T h1 h2 \<Longrightarrow> frame T h h2"
  by (simp add: frame_def same_but_ids_def)

lemma frame_setattr:
  "b \<in> T \<Longrightarrow> endswith nm ''_db_id'' \<Longrightarrow> frame T h (setattr h b nm v)"
  by (auto simp: frame_def same_but_ids_def setattr_def nonid_attrs_def nonid_update)

lemma traversed_in_nonid:
  "traversed (fst p) \<Longrightarrow> p \<in> set (attrs ob) \<longleftrightarrow> p \<in> set (nonid_attrs ob)"
  by (auto simp: traversed_def nonid_attrs_def)

lemma closed_frame:
  assumes "closed h T" and "frame T h h1"
  shows "closed h1 T"
  unfolding closed_def
proof (intro ballI impI)
  fix a p
  assume a: "a \<in> T" and p: "p \<in> set (attrs (h1 a)) \<union> set (cattrs (cls (h1 a)))"
    and t: "traversed (fst p)"
  from assms(2) have "nonid_attrs (h1 a) = nonid_attrs (h a)" and "cls (h1 a) = cls (h a)"
    by (simp_all add: frame_def same_but_ids_def)
  with p t have "p \<in> set (attrs (h a)) \<union> set (cattrs (cls (h a)))"
    by (auto simp: traversed_in_nonid)
  with assms(1) a t show "trefs (snd p) \<subseteq> T"
    unfolding closed_def by blast
qed

lemma getattr_closed:
  assumes "closed h T" and "b \<in> T" and "getattr h b nm = Some tv" and "traversed nm"
  shows "trefs tv \<subseteq> T"
proof -
  from assms(3) have "(nm, tv) \<in> set (attrs (h b)) \<union> set (cattrs (cls (h b)))"
    by (auto simp: getattr_def dest: map_of_SomeD split: option.splits)
  with assms(1,2,4) show ?thesis
    unfolding closed_def by force
qed

lemma trefs_elems: "x \<in> set (elems v) \<Longrightarrow> trefs x \<subseteq> trefs v"
  by (cases v) auto

lemma trefs_items: "map_of (items v) k = Some tv \<Longrightarrow> trefs tv \<subseteq> trefs v"
  by (cases v) (force dest: map_of_SomeD)+

lemma snd_attr_loop:
  "snd (case r of (Some e, h') \<Rightarrow> (Some e, h')
        | (None, h') \<Rightarrow> if c h' then (Some e2, h') else (None, h')) = snd r"
  by (cases r; cases "fst r") auto

lemma copy_db_ids_footprint:
  "closed h T \<Longrightarrow> trefs target \<subseteq> T \<Longrightarrow> frame T h (snd (copy_db_ids source target path h))"
proof (induction source target path h rule: copy_db_ids.induct)
  case (1 source target path h)
  note cl = "1.prems"(1) and tr = "1.prems"(2)
  show ?case
  proof (cases "10 < length path \<or> type_of h source \<noteq> type_of h target")
    case True
    then show ?thesis
      by (subst copy_db_ids.simps) (auto simp: frame_refl)
  next
    case False
    then have len: "\<not> 10 < length path" and ty: "type_of h source = type_of h target"
      by simp_all
    show ?thesis
    proof (cases "isinstance_Base h source")
      case True
      then obtain a where src: "source = VRef a" using Base_is_ref by blast
      with ty obtain b where tgt: "target = VRef b" using same_type_ref by blast
      from tr tgt have bT: "b \<in> T" by simp
      have "frame T h (snd (for_each (\<lambda>i h1.
                    if length (attrs (h1 a)) \<noteq> length (attrs (h a)) then (Some RuntimeError, h1)
                    else (case attrs (h1 a) ! i of (attr, v) \<Rightarrow>
                      if endswith attr ''_db_id'' then (None, setattr h1 b attr v)
                      else if attr = ''_experiment'' \<or> startswith attr ''__'' then (None, h1)
                      else (case getattr h1 b attr of
                              None \<Rightarrow> (Some AttributeError, h1)
                            | Some tv \<Rightarrow> copy_db_ids v tv (path @ [VStr attr]) h1)))
                  [0..<length (attrs (h a))] h))"
      proof (rule for_each_invariant [where I = "frame T h"])
        show "frame T h h" by (rule frame_refl)
      next
        fix i h1 assume i: "i \<in> set [0..<length (attrs (h a))]" and f: "frame T h h1"
        have cl1: "closed h1 T" using cl f by (rule closed_frame)
        obtain attr v where av: "attrs (h1 a) ! i = (attr, v)" by (cases "attrs (h1 a) ! i")
        have rec: "frame T h1 (snd (copy_db_ids v tv (path @ [VStr attr]) h1))"
          if sz: "length (attrs (h1 a)) = length (attrs (h a))" and n1: "\<not> endswith attr ''_db_id''"
            and n2: "\<not> (attr = ''_experiment'' \<or> startswith attr ''__'')"
            and g: "getattr h1 b attr = Some tv" for tv
        proof (rule "1.IH"(1) [OF len _ True _ src tgt i _ _ n1 n2 g cl1])
          show "\<not> type_of h source \<noteq> type_of h target" using ty by simp
          show "(source, target) = (source, target)" ..
          show "\<not> length (attrs (h1 a)) \<noteq> length (attrs (h a))" using sz by simp
          show "(attr, v) = attrs (h1 a) ! i" using av by simp
          have "traversed attr" using n1 n2 by (simp add: traversed_def)
          with cl1 bT g show "trefs tv \<subseteq> T" by (rule getattr_closed)
        qed
        show "frame T h (snd (if length (attrs (h1 a)) \<noteq> length (attrs (h a)) then (Some RuntimeError, h1)
                    else (case attrs (h1 a) ! i of (attr, v) \<Rightarrow>
                      if endswith attr ''_db_id'' then (None, setattr h1 b attr v)
                      else if attr = ''_experiment'' \<or> startswith attr ''__'' then (None, h1)
                      else (case getattr h1 b attr of
                              None \<Rightarrow> (Some AttributeError, h1)
                            | Some tv \<Rightarrow> copy_db_ids v tv (path @ [VStr attr]) h1))))"
          using f rec frame_setattr [OF bT, of attr h1 v]
          by (auto simp: av split: option.splits intro: frame_trans)
      qed
      then show ?thesis
        using len ty True src tgt
        by (subst copy_db_ids.simps) (simp add: snd_attr_loop)
    next
      case nb: False
      show ?thesis
      proof (cases "isinstance_list_set source")
        case True
        have "frame T h (snd (for_each (\<lambda>(index, x, y) h1.
                          copy_db_ids x y (path @ [VStr (str_nat index)]) h1)
                        (zip [0..<length src] (zip src tgt)) h))"
          if s: "py_sorted h (elems source) = Inr src" and t: "py_sorted h (elems target) = Inr tgt"
            and l: "length (elems source) = length (elems target)"
            and e: "\<not> (length (elems source) = 0 \<or> isinstance_type (hd (elems source)))"
            and c: "\<not> (isinstance_Base h (hd (elems source))
                \<and> \<not> isinstance_SortableBase h (hd (elems source)))"
          for src tgt
        proof (rule for_each_invariant [where I = "frame T h"])
          show "frame T h h" by (rule frame_refl)
        next
          fix p h1
          assume p: "p \<in> set (zip [0..<length src] (zip src tgt))" and f: "frame T h h1"
          obtain index x y where pxy: "p = (index, x, y)" by (cases p) auto
          have cl1: "closed h1 T" using cl f by (rule closed_frame)
          from p pxy have "y \<in> set tgt" by (auto dest!: set_zip_rightD)
          with t have "y \<in> set (elems target)" by (simp add: py_sorted_set)
          with tr have ty': "trefs y \<subseteq> T" using trefs_elems by blast
          have "frame T h1 (snd (copy_db_ids x y (path @ [VStr (str_nat index)]) h1))"
          proof (rule "1.IH"(2) [OF len _ nb True _ e c s t p _ _ cl1 ty'])
            show "\<not> type_of h source \<noteq> type_of h target" using ty by simp
            show "\<not> length (elems source) \<noteq> length (elems target)" using l by simp
            show "(index, x, y) = p" using pxy by simp
            show "(x, y) = (x, y)" ..
          qed
          with f show "frame T h (snd ((case p of (index, x, y) \<Rightarrow> \<lambda>h1.
                          copy_db_ids x y (path @ [VStr (str_nat index)]) h1) h1))"
            by (auto simp: pxy intro: frame_trans)
        qed
        then show ?thesis
          using len ty nb True
          by (subst copy_db_ids.simps) (auto simp: frame_refl split: sum.splits)
      next
        case nl: False
        show ?thesis
        proof (cases "isinstance_dict source")
          case True
          have "frame T h (snd (for_each (\<lambda>(k, v) h1.
              (case map_of (items target) k of
                 None \<Rightarrow> (Some (SQADecodeError path source target (KeyOnlyInSource k)), h1)
               | Some tv \<Rightarrow> copy_db_ids v tv (path @ [k]) h1))
            (items source) h))"
          proof (rule for_each_invariant [where I = "frame T h"])
            show "frame T h h" by (rule frame_refl)
          next
            fix p h1
            assume p: "p \<in> set (items source)" and f: "frame T h h1"
            obtain k v where pkv: "p = (k, v)" by (cases p) auto
            have cl1: "closed h1 T" using cl f by (rule closed_frame)
            have rec: "frame T h1 (snd (copy_db_ids v tv (path @ [k]) h1))"
              if g: "map_of (items target) k = Some tv" for tv
            proof (rule "1.IH"(3) [OF len _ nb nl True p _ g cl1])
              show "\<not> type_of h source \<noteq> type_of h target" using ty by simp
              show "(k, v) = p" using pkv by simp
              from g have "trefs tv \<subseteq> trefs target" by (rule trefs_items)
              with tr show "trefs tv \<subseteq> T" by blast
            qed
            show "frame T h (snd ((case p of (k, v) \<Rightarrow> \<lambda>h1.
              (case map_of (items target) k of
                 None \<Rightarrow> (Some (SQADecodeError path source target (KeyOnlyInSource k)), h1)
               | Some tv \<Rightarrow> copy_db_ids v tv (path @ [k]) h1)) h1))"
              using f rec by (auto simp: pkv split: option.splits intro: frame_trans)
          qed
          then show ?thesis
            using len ty nb nl True by (subst copy_db_ids.simps) simp
        next
          case False
          then show ?thesis
            using len ty nb nl by (subst copy_db_ids.simps) (simp add: frame_refl)
        qed
      qed
    qed
  qed
qed


lemma same_but_ids_getattr:
  assumes "same_but_ids h h'" and "\<not> endswith nm ''_db_id''"
  shows "getattr h' a nm = getattr h a nm"
proof -
  have m: "map_of (filter (\<lambda>p. \<not> endswith (fst p) ''_db_id'') ps) nm = map_of ps nm"
    for ps :: "(string \<times> val) list"
    using assms(2) by (induction ps) auto
  from assms(1) have "nonid_attrs (h' a) = nonid_attrs (h a)"
    by (simp add: same_but_ids_def)
  then have "map_of (nonid_attrs (h' a)) nm = map_of (nonid_attrs (h a)) nm" by simp
  moreover from assms(1) have "cls (h' a) = cls (h a)"
    by (simp add: same_but_ids_def)
  ultimately show ?thesis by (simp add: getattr_def nonid_attrs_def m split: option.splits)
qed

text \<open>
  C8, as amended. Let \<open>T\<close> be a set of objects that holds the objects the target refers
  to and is closed under the attributes the traversal follows. Whether the call returns
  or raises, every object outside \<open>T\<close> is left as it was (so the source and every object
  reachable from it, when none of them is in \<open>T\<close>), no object changes its class, and no
  attribute other than an identifier field changes in any object.
\<close>

theorem copy_db_ids_writes_only_target_ids:
  assumes "closed h T" and "trefs target \<subseteq> T"
  shows "(\<forall>a. a \<notin> T \<longrightarrow> snd (copy_db_ids source target path h) a = h a)
       \<and> (\<forall>a. cls (snd (copy_db_ids source target path h) a) = cls (h a))
       \<and> (\<forall>a nm. \<not> endswith nm ''_db_id'' \<longrightarrow>
            getattr (snd (copy_db_ids source target path h)) a nm = getattr h a nm)"
proof -
  have f: "frame T h (snd (copy_db_ids source target path h))"
    using assms by (rule copy_db_ids_footprint)
  then have s: "same_but_ids h (snd (copy_db_ids source target path h))"
    by (simp add: frame_def)
  from f have "\<forall>a. a \<notin> T \<longrightarrow> snd (copy_db_ids source target path h) a = h a"
    by (simp add: frame_def)
  moreover from s have "\<forall>a. cls (snd (copy_db_ids source target path h) a) = cls (h a)"
    by (simp add: same_but_ids_def)
  moreover from s have "\<forall>a nm. \<not> endswith nm ''_db_id'' \<longrightarrow>
      getattr (snd (copy_db_ids source target path h)) a nm = getattr h a nm"
    by (simp add: same_but_ids_getattr)
  ultimately show ?thesis by blast
qed

theorem copy_db_ids_writes_only_target_ids_witness:
  "snd (copy_db_ids (VRef 0) (VRef 1) [] pair_heap) 0 = pair_heap 0 \<and>
   snd (copy_db_ids (VRef 0) (VRef 1) [] pair_heap) 2 = pair_heap 2 \<and>
   getattr (snd (copy_db_ids (VRef 0) (VRef 1) [] pair_heap)) 1 ''child''
     = getattr pair_heap 1 ''child'' \<and>
   getattr (snd (copy_db_ids (VRef 0) (VRef 1) [] pair_heap)) 3 ''_db_id'' = Some (VInt 5)"
proof -
  have c: "closed pair_heap {1, 3}"
    by (simp add: closed_def traversed_def pair_heap_def no_objects_def mk_obj_def
        endswith_def startswith_def)
  have t: "trefs (VRef 1) \<subseteq> {1, 3}" by simp
  have n: "(0::nat) \<notin> {1, 3}" "(2::nat) \<notin> {1, 3}" "\<not> endswith ''child'' ''_db_id''"
    by (simp_all add: endswith_def)
  have r: "getattr (snd (copy_db_ids (VRef 0) (VRef 1) [] pair_heap)) 3 ''_db_id'' = Some (VInt 5)"
    by (simp add: copy_db_ids.simps pair_heap_def no_objects_def mk_obj_def
        endswith_def startswith_def getattr_def setattr_def)
  from copy_db_ids_writes_only_target_ids [OF c t, of "VRef 0" "[]"] n r
  show ?thesis by blast
qed

text \<open>
  C8 as stated fails: the target of the call is reachable from the source through
  \<^verbatim>\<open>_experiment\<close>, and its \<^verbatim>\<open>_db_id\<close> changes from \<^verbatim>\<open>None\<close> to 1.
\<close>

theorem source_reachable_object_written:
  "getattr backref_heap 0 ''_experiment'' = Some (VRef 1) \<and>
   getattr backref_heap 1 ''_db_id'' = Some VNone \<and>
   fst (copy_db_ids_default (VRef 0) (VRef 1) backref_heap) = None \<and>
   getattr (snd (copy_db_ids_default (VRef 0) (VRef 1) backref_heap)) 1 ''_db_id''
     = Some (VInt 1)"
  by (simp add: copy_db_ids_default_def copy_db_ids.simps backref_heap_def no_objects_def
      mk_obj_def endswith_def startswith_def getattr_def setattr_def)

section \<open>Isomorphic graphs\<close>

lemma isomorphic_obj:
  "isinstance_Base h (VRef a) \<Longrightarrow>
   isomorphic (Suc n) h (VRef a) (VRef b) =
     (type_of h (VRef a) = type_of h (VRef b) \<and> distinct (map fst (attrs (h a))) \<and>
      list_all (\<lambda>(attr, v). traversed attr \<longrightarrow>
          (case getattr h b attr of None \<Rightarrow> False | Some tv \<Rightarrow> isomorphic n h v tv))
        (attrs (h a)))"
  by simp

lemma pairs_obj:
  "isinstance_Base h (VRef a) \<Longrightarrow>
   pairs (Suc n) h (VRef a) (VRef b) =
     (a, b) # concat (map (\<lambda>(attr, v).
         if traversed attr then
           (case getattr h b attr of None \<Rightarrow> [] | Some tv \<Rightarrow> pairs n h v tv)
         else []) (attrs (h a)))"
  by simp

lemma isomorphic_seq:
  "\<not> isinstance_Base h s \<Longrightarrow> isinstance_list_set s \<Longrightarrow>
   isomorphic (Suc n) h s t =
     (type_of h s = type_of h t \<and> length (elems s) = length (elems t) \<and>
      (elems s = [] \<or> isinstance_type (hd (elems s)) \<or>
       (\<not> (isinstance_Base h (hd (elems s)) \<and> \<not> isinstance_SortableBase h (hd (elems s))) \<and>
        (case (py_sorted h (elems s), py_sorted h (elems t)) of
           (Inr src, Inr tgt) \<Rightarrow> list_all (\<lambda>(x, y). isomorphic n h x y) (zip src tgt)
         | _ \<Rightarrow> False))))"
  by simp

lemma pairs_seq:
  "\<not> isinstance_Base h s \<Longrightarrow> isinstance_list_set s \<Longrightarrow>
   pairs (Suc n) h s t =
     (if elems s = [] \<or> isinstance_type (hd (elems s)) then []
      else (case (py_sorted h (elems s), py_sorted h (elems t)) of
              (Inr src, Inr tgt) \<Rightarrow> concat (map (\<lambda>(x, y). pairs n h x y) (zip src tgt))
            | _ \<Rightarrow> []))"
  by simp

lemma isomorphic_dict:
  "\<not> isinstance_Base h s \<Longrightarrow> \<not> isinstance_list_set s \<Longrightarrow> isinstance_dict s \<Longrightarrow>
   isomorphic (Suc n) h s t =
     (type_of h s = type_of h t \<and>
      list_all (\<lambda>(k, v).
          (case map_of (items t) k of None \<Rightarrow> False | Some tv \<Rightarrow> isomorphic n h v tv))
        (items s))"
  by simp

lemma pairs_dict:
  "\<not> isinstance_Base h s \<Longrightarrow> \<not> isinstance_list_set s \<Longrightarrow> isinstance_dict s \<Longrightarrow>
   pairs (Suc n) h s t =
     concat (map (\<lambda>(k, v).
         (case map_of (items t) k of None \<Rightarrow> [] | Some tv \<Rightarrow> pairs n h v tv))
       (items s))"
  by simp

lemma pairs_other:
  "\<not> isinstance_Base h s \<Longrightarrow> \<not> isinstance_list_set s \<Longrightarrow> \<not> isinstance_dict s \<Longrightarrow>
   pairs (Suc n) h s t = []"
  by simp

lemma isomorphic_types: "isomorphic (Suc n) h s t \<Longrightarrow> type_of h s = type_of h t"
  by simp

declare isomorphic.simps(2) [simp del] pairs.simps(2) [simp del]


lemma same_but_ids_type_of: "same_but_ids h0 h \<Longrightarrow> type_of h v = type_of h0 v"
  by (cases v) (simp_all add: same_but_ids_def)

lemma same_but_ids_Base: "same_but_ids h0 h \<Longrightarrow> isinstance_Base h v = isinstance_Base h0 v"
  by (cases v) (simp_all add: same_but_ids_def)

lemma same_but_ids_Sortable:
  "same_but_ids h0 h \<Longrightarrow> isinstance_SortableBase h v = isinstance_SortableBase h0 v"
  by (cases v) (simp_all add: same_but_ids_def)

lemma same_but_ids_lt:
  "same_but_ids h0 h \<Longrightarrow> py_lt h x y = py_lt h0 x y"
  "same_but_ids h0 h \<Longrightarrow> py_lt_seq h xs ys = py_lt_seq h0 xs ys"
proof (induction h x y and h xs ys rule: py_lt_py_lt_seq.induct)
  case (8 h a y)
  from "8.prems" have "cls (h a) = cls (h0 a)" "order_key (h a) = order_key (h0 a)"
    "\<And>b. cls (h b) = cls (h0 b)" "\<And>b. order_key (h b) = order_key (h0 b)"
    by (simp_all add: same_but_ids_def)
  then show ?case by (simp add: sortable_lt_def split: val.splits)
qed (simp_all split: option.splits)

lemma same_but_ids_sorted: "same_but_ids h0 h \<Longrightarrow> py_sorted h xs = py_sorted h0 xs"
proof -
  assume s: "same_but_ids h0 h"
  have "py_lt h = py_lt h0"
    by (intro ext) (rule same_but_ids_lt(1) [OF s])
  then show ?thesis by (simp add: py_sorted_def)
qed

lemma getattr_setattr:
  "getattr (setattr h b nm v) b' nm' = (if b' = b \<and> nm' = nm then Some v else getattr h b' nm')"
  by (auto simp: getattr_def setattr_def update_conv split: option.splits)

lemma syncs_refl: "syncs P h0 h h"
  by (simp add: syncs_def)

lemma syncs_trans: "syncs P h0 h1 h2 \<Longrightarrow> syncs P h0 h2 h3 \<Longrightarrow> syncs P h0 h1 h3"
  unfolding syncs_def by metis

lemma synced_kept:
  assumes "synced h0 C h1" and "syncs P h0 h1 h2" and "C \<subseteq> P"
    and "\<forall>a a' b. (a, b) \<in> P \<longrightarrow> (a', b) \<in> P \<longrightarrow> a = a'"
  shows "synced h0 C h2"
  unfolding synced_def
proof (intro allI impI)
  fix a b nm
  assume ab: "(a, b) \<in> C" and id: "endswith nm ''_db_id''" and k: "nm \<in> fst ` set (attrs (h0 a))"
  from assms(1) ab id k have s1: "getattr h1 b nm = getattr h0 a nm"
    by (simp add: synced_def)
  from assms(2) have "getattr h2 b nm = getattr h1 b nm
      \<or> (\<exists>a'. (a', b) \<in> P \<and> getattr h2 b nm = getattr h0 a' nm)"
    by (simp add: syncs_def)
  then show "getattr h2 b nm = getattr h0 a nm"
  proof
    assume "getattr h2 b nm = getattr h1 b nm"
    with s1 show ?thesis by simp
  next
    assume "\<exists>a'. (a', b) \<in> P \<and> getattr h2 b nm = getattr h0 a' nm"
    then obtain a' where a': "(a', b) \<in> P" "getattr h2 b nm = getattr h0 a' nm" by blast
    from ab assms(3) have "(a, b) \<in> P" by blast
    with a'(1) assms(4) have "a' = a" by blast
    with a'(2) show ?thesis by simp
  qed
qed

lemma for_each_all_return:
  assumes "I h"
    and step: "\<And>x h1. x \<in> set xs \<Longrightarrow> I h1 \<Longrightarrow>
      \<exists>h2. body x h1 = (None, h2) \<and> I h2 \<and> R h1 h2 \<and> Q x h2"
    and refl: "\<And>h. R h h"
    and trans: "\<And>h1 h2 h3. R h1 h2 \<Longrightarrow> R h2 h3 \<Longrightarrow> R h1 h3"
    and keep: "\<And>x h1 h2. x \<in> set xs \<Longrightarrow> Q x h1 \<Longrightarrow> R h1 h2 \<Longrightarrow> Q x h2"
  shows "\<exists>h'. for_each body xs h = (None, h') \<and> I h' \<and> R h h' \<and> (\<forall>x \<in> set xs. Q x h')"
  using assms(1,2,5)
proof (induction xs arbitrary: h)
  case Nil
  then show ?case by (simp add: refl)
next
  case (Cons x xs)
  from Cons.prems(2) [of x h] Cons.prems(1)
  obtain h1 where h1: "body x h = (None, h1)" "I h1" "R h h1" "Q x h1" by auto
  have "\<exists>h'. for_each body xs h1 = (None, h') \<and> I h' \<and> R h1 h' \<and> (\<forall>x \<in> set xs. Q x h')"
  proof (rule Cons.IH [OF h1(2)])
    show "\<exists>h2. body y h2' = (None, h2) \<and> I h2 \<and> R h2' h2 \<and> Q y h2"
      if "y \<in> set xs" "I h2'" for y h2'
      using that Cons.prems(2) [of y h2'] by simp
    show "Q y h3" if "y \<in> set xs" "Q y h2'" "R h2' h3" for y h2' h3
      using that Cons.prems(3) [of y h2' h3] by simp
  qed
  then obtain h' where h': "for_each body xs h1 = (None, h')" "I h'" "R h1 h'"
      "\<forall>x \<in> set xs. Q x h'" by blast
  have "Q x h'" using Cons.prems(3) [of x h1 h'] h1(4) h'(3) by simp
  with h1 h' show ?case by (auto intro: trans)
qed

lemma in_zip_index:
  assumes "p \<in> set ps" and "length ps \<le> m"
  shows "\<exists>i. (i, p) \<in> set (zip [0..<m] ps)"
proof -
  from assms(1) obtain i where i: "i < length ps" "ps ! i = p"
    by (auto simp: in_set_conv_nth)
  with assms(2) have "(i, p) \<in> set (zip [0..<m] ps)"
    by (auto simp: set_zip intro!: exI [of _ i])
  then show ?thesis ..
qed

lemma in_concat_map: "x \<in> set xs \<Longrightarrow> p \<in> set (f x) \<Longrightarrow> p \<in> set (concat (map f xs))"
  by auto

lemma in_concat_mapD: "p \<in> set (concat (map f xs)) \<Longrightarrow> \<exists>x \<in> set xs. p \<in> set (f x)"
  by auto

lemma frame_same: "frame T h0 h \<Longrightarrow> same_but_ids h0 h"
  by (simp add: frame_def)

lemma frame_outside: "frame T h0 h \<Longrightarrow> a \<notin> T \<Longrightarrow> h a = h0 a"
  by (simp add: frame_def)

lemma synced_empty: "synced h0 {} h"
  by (simp add: synced_def)

lemma copy_db_ids_syncs:
  fixes P :: "(addr \<times> addr) set" and h0 :: heap
  assumes sep: "\<forall>a b. (a, b) \<in> P \<longrightarrow> a \<notin> snd ` P"
    and fn: "\<forall>a a' b. (a, b) \<in> P \<longrightarrow> (a', b) \<in> P \<longrightarrow> a = a'"
  shows "isomorphic (11 - length path) h0 source target \<Longrightarrow>
    set (pairs (11 - length path) h0 source target) \<subseteq> P \<Longrightarrow>
    frame (snd ` P) h0 h \<Longrightarrow>
    \<exists>h'. copy_db_ids source target path h = (None, h') \<and> frame (snd ` P) h0 h'
       \<and> syncs P h0 h h'
       \<and> synced h0 (set (pairs (11 - length path) h0 source target)) h'"
proof (induction source target path h rule: copy_db_ids.induct)
  case (1 source target path h)
  note iso = "1.prems"(1) and sub = "1.prems"(2) and fr = "1.prems"(3)
  let ?T = "snd ` P"
  have sb: "same_but_ids h0 h" using fr by (rule frame_same)
  show ?case
  proof (cases "10 < length path")
    case True
    then have "11 - length path = 0" by simp
    moreover have "copy_db_ids source target path h = (None, h)"
      using True by (subst copy_db_ids.simps) simp
    ultimately show ?thesis
      using fr by (simp add: syncs_refl synced_empty)
  next
    case len: False
    define n where "n = 10 - length path"
    have n: "11 - length path = Suc n" using len by (simp add: n_def)
    have n': "11 - length (path @ [x]) = n" for x :: val using len by (simp add: n_def)
    from iso have isoS: "isomorphic (Suc n) h0 source target" by (simp only: n)
    from sub have subS: "set (pairs (Suc n) h0 source target) \<subseteq> P" by (simp only: n)
    from isoS have ty0: "type_of h0 source = type_of h0 target"
      by (rule isomorphic_types)
    then have ty: "type_of h source = type_of h target"
      by (simp add: same_but_ids_type_of [OF sb])
    show ?thesis
    proof (cases "isinstance_Base h source")
      case True
      then have b0: "isinstance_Base h0 source" by (simp add: same_but_ids_Base [OF sb])
      from True obtain a where src: "source = VRef a" using Base_is_ref by blast
      with ty obtain b where tgt: "target = VRef b" using same_type_ref by blast
      from b0 src have b0': "isinstance_Base h0 (VRef a)" by simp
      from isoS have "isomorphic (Suc n) h0 (VRef a) (VRef b)" by (simp only: src tgt)
      then have dist: "distinct (map fst (attrs (h0 a)))"
        and all: "list_all (\<lambda>(attr, v). traversed attr \<longrightarrow>
                 (case getattr h0 b attr of None \<Rightarrow> False
                  | Some tv \<Rightarrow> isomorphic n h0 v tv)) (attrs (h0 a))"
        by (simp_all only: isomorphic_obj [OF b0'])
      have prs: "pairs (Suc n) h0 source target =
          (a, b) # concat (map (\<lambda>(attr, v).
                if traversed attr then
                  (case getattr h0 b attr of None \<Rightarrow> [] | Some tv \<Rightarrow> pairs n h0 v tv)
                else []) (attrs (h0 a)))"
        unfolding src tgt by (rule pairs_obj [OF b0'])
      have "(a, b) \<in> set (pairs (Suc n) h0 source target)" by (simp only: prs list.set insertI1)
      with subS have abP: "(a, b) \<in> P" by (rule subsetD)
      with sep have aT: "a \<notin> ?T" by blast
      from abP have bT: "b \<in> ?T" by force
      have ha: "h a = h0 a" using fr aT by (rule frame_outside)
      have subP: "set (pairs n h0 v tv) \<subseteq> P"
        if "(attr, v) \<in> set (attrs (h0 a))" "traversed attr" "getattr h0 b attr = Some tv"
        for attr v tv
      proof
        fix p assume p: "p \<in> set (pairs n h0 v tv)"
        have "p \<in> set (concat (map (\<lambda>(attr, v).
                if traversed attr then
                  (case getattr h0 b attr of None \<Rightarrow> [] | Some tv \<Rightarrow> pairs n h0 v tv)
                else []) (attrs (h0 a))))"
          by (rule in_concat_map [OF that(1)]) (simp add: that p)
        then have "p \<in> set (pairs (Suc n) h0 source target)"
          unfolding prs list.set by (rule insertI2)
        with subS show "p \<in> P" by blast
      qed
      define Q where "Q = (\<lambda>i h'. case attrs (h0 a) ! i of (attr, v) \<Rightarrow>
          (endswith attr ''_db_id'' \<longrightarrow> getattr h' b attr = getattr h0 a attr)
        \<and> (traversed attr \<longrightarrow>
             (\<forall>tv. getattr h0 b attr = Some tv \<longrightarrow> synced h0 (set (pairs n h0 v tv)) h')))"
      have loop: "\<exists>h'. for_each (\<lambda>i h1.
                    if length (attrs (h1 a)) \<noteq> length (attrs (h a)) then (Some RuntimeError, h1)
                    else (case attrs (h1 a) ! i of (attr, v) \<Rightarrow>
                      if endswith attr ''_db_id'' then (None, setattr h1 b attr v)
                      else if attr = ''_experiment'' \<or> startswith attr ''__'' then (None, h1)
                      else (case getattr h1 b attr of
                              None \<Rightarrow> (Some AttributeError, h1)
                            | Some tv \<Rightarrow> copy_db_ids v tv (path @ [VStr attr]) h1)))
                  [0..<length (attrs (h a))] h = (None, h') \<and> frame ?T h0 h' \<and> syncs P h0 h h'
              \<and> (\<forall>i \<in> set [0..<length (attrs (h a))]. Q i h')"
      proof (rule for_each_all_return [where I = "frame ?T h0" and R = "syncs P h0" and Q = Q])
        show "frame ?T h0 h" by (rule fr)
        show "syncs P h0 k k" for k by (rule syncs_refl)
        show "syncs P h0 h1 h2 \<Longrightarrow> syncs P h0 h2 h3 \<Longrightarrow> syncs P h0 h1 h3" for h1 h2 h3
          by (rule syncs_trans)
      next
        fix i h1 h2
        assume i: "i \<in> set [0..<length (attrs (h a))]" and q: "Q i h1" and r: "syncs P h0 h1 h2"
        obtain attr v where av: "attrs (h0 a) ! i = (attr, v)" by (cases "attrs (h0 a) ! i")
        from i ha have mem: "(attr, v) \<in> set (attrs (h0 a))"
          using av by (auto simp: in_set_conv_nth)
        have 1: "getattr h2 b attr = getattr h0 a attr"
          if e: "endswith attr ''_db_id''"
        proof -
          from q e av have s1: "getattr h1 b attr = getattr h0 a attr" by (simp add: Q_def)
          from r have "getattr h2 b attr = getattr h1 b attr
              \<or> (\<exists>a'. (a', b) \<in> P \<and> getattr h2 b attr = getattr h0 a' attr)"
            by (simp add: syncs_def)
          with s1 abP fn show ?thesis by metis
        qed
        have 2: "synced h0 (set (pairs n h0 v tv)) h2"
          if t: "traversed attr" and g: "getattr h0 b attr = Some tv" for tv
        proof -
          from q t g av have "synced h0 (set (pairs n h0 v tv)) h1" by (simp add: Q_def)
          then show ?thesis using r subP [OF mem t g] fn by (rule synced_kept)
        qed
        from 1 2 show "Q i h2" by (simp add: Q_def av)
      next
        fix i h1
        assume i: "i \<in> set [0..<length (attrs (h a))]" and f1: "frame ?T h0 h1"
        have sb1: "same_but_ids h0 h1" using f1 by (rule frame_same)
        have h1a: "h1 a = h0 a" using f1 aT by (rule frame_outside)
        obtain attr v where av: "attrs (h0 a) ! i = (attr, v)" by (cases "attrs (h0 a) ! i")
        from i ha have mem: "(attr, v) \<in> set (attrs (h0 a))"
          using av by (auto simp: in_set_conv_nth)
        from dist mem have ga: "getattr h0 a attr = Some v"
          by (simp add: getattr_def)
        let ?body = "if length (attrs (h1 a)) \<noteq> length (attrs (h a)) then (Some RuntimeError, h1)
                    else (case attrs (h1 a) ! i of (attr, v) \<Rightarrow>
                      if endswith attr ''_db_id'' then (None, setattr h1 b attr v)
                      else if attr = ''_experiment'' \<or> startswith attr ''__'' then (None, h1)
                      else (case getattr h1 b attr of
                              None \<Rightarrow> (Some AttributeError, h1)
                            | Some tv \<Rightarrow> copy_db_ids v tv (path @ [VStr attr]) h1))"
        show "\<exists>h2. ?body = (None, h2) \<and> frame ?T h0 h2 \<and> syncs P h0 h1 h2 \<and> Q i h2"
        proof (cases "endswith attr ''_db_id''")
          case True
          have b: "?body = (None, setattr h1 b attr v)"
            using True by (simp add: h1a ha av)
          have f2: "frame ?T h0 (setattr h1 b attr v)"
            using f1 frame_setattr [OF bT True] by (rule frame_trans)
          have s2: "syncs P h0 h1 (setattr h1 b attr v)"
            unfolding syncs_def using abP ga by (auto simp: getattr_setattr)
          have "\<not> traversed attr" using True by (simp add: traversed_def)
          then have q2: "Q i (setattr h1 b attr v)"
            by (simp add: Q_def av getattr_setattr ga)
          from b f2 s2 q2 show ?thesis by simp
        next
          case ne: False
          show ?thesis
          proof (cases "attr = ''_experiment'' \<or> startswith attr ''__''")
            case True
            then have "\<not> traversed attr" by (auto simp: traversed_def)
            with ne have "Q i h1" by (simp add: Q_def av)
            moreover have "?body = (None, h1)" using ne True by (simp add: h1a ha av)
            ultimately show ?thesis using f1 by (simp add: syncs_refl)
          next
            case ns: False
            with ne have t: "traversed attr" by (simp add: traversed_def)
            from all mem t obtain tv where g0: "getattr h0 b attr = Some tv"
              and iso': "isomorphic n h0 v tv"
              by (auto simp: list_all_iff split: option.splits)
            have g1: "getattr h1 b attr = Some tv"
              using g0 same_but_ids_getattr [OF sb1 ne] by simp
            have b: "?body = copy_db_ids v tv (path @ [VStr attr]) h1"
              using ne ns g1 by (simp add: h1a ha av)
            have "\<exists>h'. copy_db_ids v tv (path @ [VStr attr]) h1 = (None, h')
                \<and> frame ?T h0 h' \<and> syncs P h0 h1 h'
                \<and> synced h0 (set (pairs (11 - length (path @ [VStr attr])) h0 v tv)) h'"
            proof (rule "1.IH"(1) [OF len _ True _ src tgt i _ _ ne ns g1])
              show "\<not> type_of h source \<noteq> type_of h target" using ty by simp
              show "(source, target) = (source, target)" ..
              show "\<not> length (attrs (h1 a)) \<noteq> length (attrs (h a))" by (simp add: h1a ha)
              show "(attr, v) = attrs (h1 a) ! i" by (simp add: h1a av)
              show "isomorphic (11 - length (path @ [VStr attr])) h0 v tv"
                using iso' by (simp only: n')
              show "set (pairs (11 - length (path @ [VStr attr])) h0 v tv) \<subseteq> P"
                using subP [OF mem t g0] by (simp only: n')
              show "frame ?T h0 h1" by (rule f1)
            qed
            then obtain h2 where h2: "copy_db_ids v tv (path @ [VStr attr]) h1 = (None, h2)"
              "frame ?T h0 h2" "syncs P h0 h1 h2" "synced h0 (set (pairs n h0 v tv)) h2"
              by (auto simp only: n')
            from h2(4) ne g0 have "Q i h2" by (simp add: Q_def av)
            with b h2 show ?thesis by simp
          qed
        qed
      qed
      then obtain h' where h': "for_each (\<lambda>i h1.
                    if length (attrs (h1 a)) \<noteq> length (attrs (h a)) then (Some RuntimeError, h1)
                    else (case attrs (h1 a) ! i of (attr, v) \<Rightarrow>
                      if endswith attr ''_db_id'' then (None, setattr h1 b attr v)
                      else if attr = ''_experiment'' \<or> startswith attr ''__'' then (None, h1)
                      else (case getattr h1 b attr of
                              None \<Rightarrow> (Some AttributeError, h1)
                            | Some tv \<Rightarrow> copy_db_ids v tv (path @ [VStr attr]) h1)))
                  [0..<length (attrs (h a))] h = (None, h')"
        and f': "frame ?T h0 h'" and s': "syncs P h0 h h'"
        and q': "\<forall>i \<in> set [0..<length (attrs (h a))]. Q i h'"
        by blast
      have h'a: "h' a = h0 a" using f' aT by (rule frame_outside)
      have res: "copy_db_ids source target path h = (None, h')"
        using len ty True src tgt h' by (subst copy_db_ids.simps) (simp add: h'a ha)
      have "synced h0 (set (pairs (Suc n) h0 source target)) h'"
        unfolding synced_def
      proof (intro allI impI)
        fix a' b' nm
        assume m: "(a', b') \<in> set (pairs (Suc n) h0 source target)"
          and e: "endswith nm ''_db_id''" and k: "nm \<in> fst ` set (attrs (h0 a'))"
        from m have "(a', b') = (a, b) \<or> (a', b') \<in> set (concat (map (\<lambda>(attr, v).
                if traversed attr then
                  (case getattr h0 b attr of None \<Rightarrow> [] | Some tv \<Rightarrow> pairs n h0 v tv)
                else []) (attrs (h0 a))))"
          unfolding prs list.set by blast
        then show "getattr h' b' nm = getattr h0 a' nm"
        proof
          assume here: "(a', b') = (a, b)"
          from k here obtain v where "(nm, v) \<in> set (attrs (h0 a))" by auto
          then obtain i where i: "i < length (attrs (h0 a))" "attrs (h0 a) ! i = (nm, v)"
            by (auto simp: in_set_conv_nth)
          with q' ha have "Q i h'" by simp
          with i e here show ?thesis by (simp add: Q_def)
        next
          assume "(a', b') \<in> set (concat (map (\<lambda>(attr, v).
                if traversed attr then
                  (case getattr h0 b attr of None \<Rightarrow> [] | Some tv \<Rightarrow> pairs n h0 v tv)
                else []) (attrs (h0 a))))"
          then obtain x where x: "x \<in> set (attrs (h0 a))"
            "(a', b') \<in> set ((\<lambda>(attr, v).
                if traversed attr then
                  (case getattr h0 b attr of None \<Rightarrow> [] | Some tv \<Rightarrow> pairs n h0 v tv)
                else []) x)"
            by (blast dest: in_concat_mapD)
          obtain attr v where xv: "x = (attr, v)" by (cases x)
          from x(2) xv have t: "traversed attr" by (cases "traversed attr") simp_all
          from x(2) xv t obtain tv where tv: "getattr h0 b attr = Some tv"
            "(a', b') \<in> set (pairs n h0 v tv)"
            by (cases "getattr h0 b attr") simp_all
          from x(1) xv obtain i where i: "i < length (attrs (h0 a))" "attrs (h0 a) ! i = (attr, v)"
            by (auto simp: in_set_conv_nth)
          with q' ha have "Q i h'" by simp
          with i t tv have "synced h0 (set (pairs n h0 v tv)) h'" by (simp add: Q_def)
          with tv(2) e k show ?thesis by (simp add: synced_def)
        qed
      qed
      with res f' s' show ?thesis by (simp only: n) simp
    next
      case nb: False
      then have nb0: "\<not> isinstance_Base h0 source" by (simp add: same_but_ids_Base [OF sb])
      show ?thesis
      proof (cases "isinstance_list_set source")
        case True
        from isoS have l: "length (elems source) = length (elems target)"
          and alt: "elems source = [] \<or> isinstance_type (hd (elems source)) \<or>
            (\<not> (isinstance_Base h0 (hd (elems source))
                \<and> \<not> isinstance_SortableBase h0 (hd (elems source))) \<and>
             (case (py_sorted h0 (elems source), py_sorted h0 (elems target)) of
                (Inr src, Inr tgt) \<Rightarrow> list_all (\<lambda>(x, y). isomorphic n h0 x y) (zip src tgt)
              | _ \<Rightarrow> False))"
          by (simp_all only: isomorphic_seq [OF nb0 True])
        note prs = pairs_seq [OF nb0 True, of n target]
        show ?thesis
        proof (cases "elems source = [] \<or> isinstance_type (hd (elems source))")
          case e: True
          then have "pairs (Suc n) h0 source target = []" by (simp only: prs if_True)
          moreover have "copy_db_ids source target path h = (None, h)"
            using len ty nb True l e by (subst copy_db_ids.simps) auto
          ultimately show ?thesis
            using fr by (simp only: n) (simp add: syncs_refl synced_empty)
        next
          case e: False
          with alt have c0: "\<not> (isinstance_Base h0 (hd (elems source))
                \<and> \<not> isinstance_SortableBase h0 (hd (elems source)))"
            and cs: "(case (py_sorted h0 (elems source), py_sorted h0 (elems target)) of
                (Inr src, Inr tgt) \<Rightarrow> list_all (\<lambda>(x, y). isomorphic n h0 x y) (zip src tgt)
              | _ \<Rightarrow> False)"
            by blast+
          from cs obtain src tgt where s0: "py_sorted h0 (elems source) = Inr src"
            and t0: "py_sorted h0 (elems target) = Inr tgt"
            and all: "list_all (\<lambda>(x, y). isomorphic n h0 x y) (zip src tgt)"
            by (cases "py_sorted h0 (elems source)"; cases "py_sorted h0 (elems target)") simp_all
          have s: "py_sorted h (elems source) = Inr src" and t: "py_sorted h (elems target) = Inr tgt"
            using s0 t0 by (simp_all add: same_but_ids_sorted [OF sb])
          have c: "\<not> (isinstance_Base h (hd (elems source))
                \<and> \<not> isinstance_SortableBase h (hd (elems source)))"
            using c0 by (simp add: same_but_ids_Base [OF sb] same_but_ids_Sortable [OF sb])
          have e': "\<not> (length (elems source) = 0 \<or> isinstance_type (hd (elems source)))"
            using e by simp
          have prs': "pairs (Suc n) h0 source target =
              concat (map (\<lambda>(x, y). pairs n h0 x y) (zip src tgt))"
            using e by (simp add: prs s0 t0)
          have subP: "set (pairs n h0 x y) \<subseteq> P" if "(x, y) \<in> set (zip src tgt)" for x y
          proof
            fix p assume p: "p \<in> set (pairs n h0 x y)"
            have "p \<in> set (concat (map (\<lambda>(x, y). pairs n h0 x y) (zip src tgt)))"
              by (rule in_concat_map [OF that]) (simp add: p)
            with subS show "p \<in> P" unfolding prs' by blast
          qed
          define Q where "Q = (\<lambda>(q :: nat \<times> val \<times> val) h'.
              synced h0 (set (pairs n h0 (fst (snd q)) (snd (snd q)))) h')"
          have "\<exists>h'. for_each (\<lambda>(index, x, y) h1.
                          copy_db_ids x y (path @ [VStr (str_nat index)]) h1)
                        (zip [0..<length src] (zip src tgt)) h = (None, h')
              \<and> frame ?T h0 h' \<and> syncs P h0 h h'
              \<and> (\<forall>q \<in> set (zip [0..<length src] (zip src tgt)). Q q h')"
          proof (rule for_each_all_return [where I = "frame ?T h0" and R = "syncs P h0" and Q = Q])
            show "frame ?T h0 h" by (rule fr)
            show "syncs P h0 k k" for k by (rule syncs_refl)
            show "syncs P h0 h1 h2 \<Longrightarrow> syncs P h0 h2 h3 \<Longrightarrow> syncs P h0 h1 h3" for h1 h2 h3
              by (rule syncs_trans)
          next
            fix q h1 h2
            assume q: "q \<in> set (zip [0..<length src] (zip src tgt))" and q1: "Q q h1"
              and r: "syncs P h0 h1 h2"
            have "snd q \<in> set (zip src tgt)"
              using q set_zip_rightD [of "fst q" "snd q" "[0..<length src]" "zip src tgt"] by simp
            then have "(fst (snd q), snd (snd q)) \<in> set (zip src tgt)" by simp
            then have sp: "set (pairs n h0 (fst (snd q)) (snd (snd q))) \<subseteq> P" by (rule subP)
            from q1 have "synced h0 (set (pairs n h0 (fst (snd q)) (snd (snd q)))) h1"
              by (simp add: Q_def)
            then have "synced h0 (set (pairs n h0 (fst (snd q)) (snd (snd q)))) h2"
              using r sp fn by (rule synced_kept)
            then show "Q q h2" by (simp add: Q_def)
          next
            fix q h1
            assume q: "q \<in> set (zip [0..<length src] (zip src tgt))" and f1: "frame ?T h0 h1"
            obtain index x y where qxy: "q = (index, x, y)" by (cases q) auto
            have xy: "(x, y) \<in> set (zip src tgt)"
              using q qxy set_zip_rightD [of index "(x, y)" "[0..<length src]" "zip src tgt"] by simp
            with all have iso': "isomorphic n h0 x y" by (auto simp: list_all_iff)
            have "\<exists>h'. copy_db_ids x y (path @ [VStr (str_nat index)]) h1 = (None, h')
                \<and> frame ?T h0 h' \<and> syncs P h0 h1 h'
                \<and> synced h0 (set (pairs (11 - length (path @ [VStr (str_nat index)])) h0 x y)) h'"
            proof (rule "1.IH"(2) [OF len _ nb True _ e' c s t q])
              show "\<not> type_of h source \<noteq> type_of h target" using ty by simp
              show "\<not> length (elems source) \<noteq> length (elems target)" using l by simp
              show "(index, x, y) = q" using qxy by simp
              show "(x, y) = (x, y)" ..
              show "isomorphic (11 - length (path @ [VStr (str_nat index)])) h0 x y"
                using iso' by (simp only: n')
              show "set (pairs (11 - length (path @ [VStr (str_nat index)])) h0 x y) \<subseteq> P"
                using subP [OF xy] by (simp only: n')
              show "frame ?T h0 h1" by (rule f1)
            qed
            then obtain h2 where h2: "copy_db_ids x y (path @ [VStr (str_nat index)]) h1 = (None, h2)"
              "frame ?T h0 h2" "syncs P h0 h1 h2" "synced h0 (set (pairs n h0 x y)) h2"
              by (auto simp only: n')
            from h2(4) have "Q q h2" by (simp add: Q_def qxy)
            with h2 show "\<exists>h2. (case q of (index, x, y) \<Rightarrow> \<lambda>h1.
                          copy_db_ids x y (path @ [VStr (str_nat index)]) h1) h1 = (None, h2)
                \<and> frame ?T h0 h2 \<and> syncs P h0 h1 h2 \<and> Q q h2"
              by (simp add: qxy)
          qed
          then obtain h' where h': "for_each (\<lambda>(index, x, y) h1.
                          copy_db_ids x y (path @ [VStr (str_nat index)]) h1)
                        (zip [0..<length src] (zip src tgt)) h = (None, h')"
            and f': "frame ?T h0 h'" and s': "syncs P h0 h h'"
            and q': "\<forall>q \<in> set (zip [0..<length src] (zip src tgt)). Q q h'"
            by blast
          have res: "copy_db_ids source target path h = (None, h')"
            using len ty nb True l e' c s t h' by (subst copy_db_ids.simps) simp
          have "synced h0 (set (pairs (Suc n) h0 source target)) h'"
            unfolding synced_def
          proof (intro allI impI)
            fix a' b' nm
            assume m: "(a', b') \<in> set (pairs (Suc n) h0 source target)"
              and e: "endswith nm ''_db_id''" and k: "nm \<in> fst ` set (attrs (h0 a'))"
            from m obtain z where z: "z \<in> set (zip src tgt)"
              "(a', b') \<in> set ((\<lambda>(x, y). pairs n h0 x y) z)"
              unfolding prs' by (blast dest: in_concat_mapD)
            have le: "length (zip src tgt) \<le> length src" by simp
            from in_zip_index [OF z(1) le]
            obtain i where "(i, z) \<in> set (zip [0..<length src] (zip src tgt))" ..
            with q' have "Q (i, z) h'" by blast
            then have "synced h0 (set (pairs n h0 (fst z) (snd z))) h'" by (simp add: Q_def)
            moreover from z(2) have "(a', b') \<in> set (pairs n h0 (fst z) (snd z))"
              by (simp add: case_prod_beta)
            ultimately show "getattr h' b' nm = getattr h0 a' nm"
              using e k by (simp add: synced_def)
          qed
          with res f' s' show ?thesis by (simp only: n) simp
        qed
      next
        case nl: False
        show ?thesis
        proof (cases "isinstance_dict source")
          case True
          from isoS have all: "list_all (\<lambda>(k, v).
              (case map_of (items target) k of None \<Rightarrow> False
               | Some tv \<Rightarrow> isomorphic n h0 v tv)) (items source)"
            by (simp only: isomorphic_dict [OF nb0 nl True])
          note prs = pairs_dict [OF nb0 nl True, of n target]
          have subP: "set (pairs n h0 v tv) \<subseteq> P"
            if "(k, v) \<in> set (items source)" "map_of (items target) k = Some tv" for k v tv
          proof
            fix p assume p: "p \<in> set (pairs n h0 v tv)"
            have "p \<in> set (concat (map (\<lambda>(k, v).
                (case map_of (items target) k of None \<Rightarrow> []
                 | Some tv \<Rightarrow> pairs n h0 v tv)) (items source)))"
              by (rule in_concat_map [OF that(1)]) (simp add: that p)
            with subS show "p \<in> P" unfolding prs by blast
          qed
          define Q where "Q = (\<lambda>(q :: val \<times> val) h'.
              \<forall>tv. map_of (items target) (fst q) = Some tv \<longrightarrow>
                synced h0 (set (pairs n h0 (snd q) tv)) h')"
          have "\<exists>h'. for_each (\<lambda>(k, v) h1.
              (case map_of (items target) k of
                 None \<Rightarrow> (Some (SQADecodeError path source target (KeyOnlyInSource k)), h1)
               | Some tv \<Rightarrow> copy_db_ids v tv (path @ [k]) h1))
            (items source) h = (None, h')
              \<and> frame ?T h0 h' \<and> syncs P h0 h h' \<and> (\<forall>q \<in> set (items source). Q q h')"
          proof (rule for_each_all_return [where I = "frame ?T h0" and R = "syncs P h0" and Q = Q])
            show "frame ?T h0 h" by (rule fr)
            show "syncs P h0 k k" for k by (rule syncs_refl)
            show "syncs P h0 h1 h2 \<Longrightarrow> syncs P h0 h2 h3 \<Longrightarrow> syncs P h0 h1 h3" for h1 h2 h3
              by (rule syncs_trans)
          next
            fix q h1 h2
            assume q: "q \<in> set (items source)" and q1: "Q q h1" and r: "syncs P h0 h1 h2"
            show "Q q h2"
              unfolding Q_def
            proof (intro allI impI)
              fix tv assume g: "map_of (items target) (fst q) = Some tv"
              from q have "(fst q, snd q) \<in> set (items source)" by simp
              then have sp: "set (pairs n h0 (snd q) tv) \<subseteq> P" using g by (rule subP)
              from q1 g have "synced h0 (set (pairs n h0 (snd q) tv)) h1"
                by (simp add: Q_def)
              then show "synced h0 (set (pairs n h0 (snd q) tv)) h2"
                using r sp fn by (rule synced_kept)
            qed
          next
            fix q h1
            assume q: "q \<in> set (items source)" and f1: "frame ?T h0 h1"
            obtain k v where qkv: "q = (k, v)" by (cases q) auto
            from all q qkv obtain tv where g: "map_of (items target) k = Some tv"
              and iso': "isomorphic n h0 v tv"
              by (cases "map_of (items target) k") (auto simp: list_all_iff)
            from q qkv have kv: "(k, v) \<in> set (items source)" by simp
            have "\<exists>h'. copy_db_ids v tv (path @ [k]) h1 = (None, h')
                \<and> frame ?T h0 h' \<and> syncs P h0 h1 h'
                \<and> synced h0 (set (pairs (11 - length (path @ [k])) h0 v tv)) h'"
            proof (rule "1.IH"(3) [OF len _ nb nl True q _ g])
              show "\<not> type_of h source \<noteq> type_of h target" using ty by simp
              show "(k, v) = q" using qkv by simp
              show "isomorphic (11 - length (path @ [k])) h0 v tv"
                using iso' by (simp only: n')
              show "set (pairs (11 - length (path @ [k])) h0 v tv) \<subseteq> P"
                using subP [OF kv g] by (simp only: n')
              show "frame ?T h0 h1" by (rule f1)
            qed
            then obtain h2 where h2: "copy_db_ids v tv (path @ [k]) h1 = (None, h2)"
              "frame ?T h0 h2" "syncs P h0 h1 h2" "synced h0 (set (pairs n h0 v tv)) h2"
              by (auto simp only: n')
            from h2(4) g have "Q q h2" by (simp add: Q_def qkv)
            with h2 g show "\<exists>h2. (case q of (k, v) \<Rightarrow> \<lambda>h1.
              (case map_of (items target) k of
                 None \<Rightarrow> (Some (SQADecodeError path source target (KeyOnlyInSource k)), h1)
               | Some tv \<Rightarrow> copy_db_ids v tv (path @ [k]) h1)) h1 = (None, h2)
                \<and> frame ?T h0 h2 \<and> syncs P h0 h1 h2 \<and> Q q h2"
              by (simp add: qkv)
          qed
          then obtain h' where h': "for_each (\<lambda>(k, v) h1.
              (case map_of (items target) k of
                 None \<Rightarrow> (Some (SQADecodeError path source target (KeyOnlyInSource k)), h1)
               | Some tv \<Rightarrow> copy_db_ids v tv (path @ [k]) h1))
            (items source) h = (None, h')"
            and f': "frame ?T h0 h'" and s': "syncs P h0 h h'"
            and q': "\<forall>q \<in> set (items source). Q q h'"
            by blast
          have res: "copy_db_ids source target path h = (None, h')"
            using len ty nb nl True h' by (subst copy_db_ids.simps) simp
          have "synced h0 (set (pairs (Suc n) h0 source target)) h'"
            unfolding synced_def
          proof (intro allI impI)
            fix a' b' nm
            assume m: "(a', b') \<in> set (pairs (Suc n) h0 source target)"
              and e: "endswith nm ''_db_id''" and k: "nm \<in> fst ` set (attrs (h0 a'))"
            from m obtain z where z: "z \<in> set (items source)"
              "(a', b') \<in> set ((\<lambda>(k, v).
                (case map_of (items target) k of None \<Rightarrow> []
                 | Some tv \<Rightarrow> pairs n h0 v tv)) z)"
              unfolding prs by (blast dest: in_concat_mapD)
            from z(2) obtain tv where tv: "map_of (items target) (fst z) = Some tv"
              "(a', b') \<in> set (pairs n h0 (snd z) tv)"
              by (cases "map_of (items target) (fst z)") (simp_all add: case_prod_beta)
            from q' z(1) have "Q z h'" by blast
            with tv(1) have "synced h0 (set (pairs n h0 (snd z) tv)) h'" by (simp add: Q_def)
            with tv(2) e k show "getattr h' b' nm = getattr h0 a' nm"
              by (simp add: synced_def)
          qed
          with res f' s' show ?thesis by (simp only: n) simp
        next
          case False
          have "pairs (Suc n) h0 source target = []" by (rule pairs_other [OF nb0 nl False])
          moreover have "copy_db_ids source target path h = (None, h)"
            using len ty nb nl False by (subst copy_db_ids.simps) simp
          ultimately show ?thesis
            using fr by (simp only: n) (simp add: syncs_refl synced_empty)
        qed
      qed
    qed
  qed
qed


text \<open>
  C1, as amended. Let source and target be structurally isomorphic along the traversal,
  down to the depth of the guard, and let the corresponding positions pair every target
  object with one source object only and no source object be a target object. Then the
  call returns without an error; at every corresponding position every identifier field
  of the source object is the same in the target object, and the source object is as it
  was; no attribute other than an identifier field changes in any object; and no object
  that is not the target object of a corresponding position changes.
\<close>

theorem copy_db_ids_isomorphic:
  assumes "isomorphic (11 - length path) h source target"
    and "\<forall>a b. (a, b) \<in> positions path h source target \<longrightarrow>
           a \<notin> snd ` positions path h source target"
    and "\<forall>a a' b. (a, b) \<in> positions path h source target \<longrightarrow>
           (a', b) \<in> positions path h source target \<longrightarrow> a = a'"
  shows "fst (copy_db_ids source target path h) = None
    \<and> (\<forall>a b nm. (a, b) \<in> positions path h source target \<longrightarrow> endswith nm ''_db_id'' \<longrightarrow>
          nm \<in> fst ` set (attrs (h a)) \<longrightarrow>
          getattr (snd (copy_db_ids source target path h)) b nm = getattr h a nm
          \<and> snd (copy_db_ids source target path h) a = h a)
    \<and> (\<forall>a nm. \<not> endswith nm ''_db_id'' \<longrightarrow>
          getattr (snd (copy_db_ids source target path h)) a nm = getattr h a nm)
    \<and> (\<forall>a. a \<notin> snd ` positions path h source target \<longrightarrow>
          snd (copy_db_ids source target path h) a = h a)"
proof -
  let ?P = "positions path h source target"
  have "\<exists>h'. copy_db_ids source target path h = (None, h') \<and> frame (snd ` ?P) h h'
       \<and> syncs ?P h h h'
       \<and> synced h (set (pairs (11 - length path) h source target)) h'"
    using assms(2,3,1) _ frame_refl
    by (rule copy_db_ids_syncs) (simp add: positions_def)
  then obtain h' where r: "copy_db_ids source target path h = (None, h')"
    and f: "frame (snd ` ?P) h h'" and s: "synced h ?P h'"
    by (auto simp: positions_def)
  from f have out: "\<forall>a. a \<notin> snd ` ?P \<longrightarrow> h' a = h a" by (simp add: frame_def)
  from f have "same_but_ids h h'" by (simp add: frame_def)
  then have non: "\<forall>a nm. \<not> endswith nm ''_db_id'' \<longrightarrow> getattr h' a nm = getattr h a nm"
    by (simp add: same_but_ids_getattr)
  have ids: "\<forall>a b nm. (a, b) \<in> ?P \<longrightarrow> endswith nm ''_db_id'' \<longrightarrow>
          nm \<in> fst ` set (attrs (h a)) \<longrightarrow> getattr h' b nm = getattr h a nm \<and> h' a = h a"
  proof (intro allI impI)
    fix a b nm
    assume ab: "(a, b) \<in> ?P" and e: "endswith nm ''_db_id''" and k: "nm \<in> fst ` set (attrs (h a))"
    from s ab e k have "getattr h' b nm = getattr h a nm" by (simp add: synced_def)
    moreover from assms(2) ab have "a \<notin> snd ` ?P" by blast
    with out have "h' a = h a" by blast
    ultimately show "getattr h' b nm = getattr h a nm \<and> h' a = h a" by simp
  qed
  from r out non ids show ?thesis by simp
qed


theorem copy_db_ids_isomorphic_witness:
  "fst (copy_db_ids (VRef 0) (VRef 1) [] pair_heap) = None \<and>
   getattr (snd (copy_db_ids (VRef 0) (VRef 1) [] pair_heap)) 1 ''_db_id'' = Some (VInt 1) \<and>
   getattr (snd (copy_db_ids (VRef 0) (VRef 1) [] pair_heap)) 3 ''_db_id'' = Some (VInt 5) \<and>
   getattr (snd (copy_db_ids (VRef 0) (VRef 1) [] pair_heap)) 1 ''child'' = Some (VRef 3) \<and>
   snd (copy_db_ids (VRef 0) (VRef 1) [] pair_heap) 0 = pair_heap 0 \<and>
   snd (copy_db_ids (VRef 0) (VRef 1) [] pair_heap) 2 = pair_heap 2"
proof -
  have iso: "isomorphic (11 - length ([] :: val list)) pair_heap (VRef 0) (VRef 1)"
    by (simp add: isomorphic.simps eval_nat_numeral pair_heap_def no_objects_def mk_obj_def
        traversed_def endswith_def startswith_def getattr_def)
  have pos: "positions [] pair_heap (VRef 0) (VRef 1) = {(0, 1), (2, 3)}"
    by (simp add: positions_def pairs.simps eval_nat_numeral pair_heap_def no_objects_def mk_obj_def
        traversed_def endswith_def startswith_def getattr_def)
  have sep: "\<forall>a b. (a, b) \<in> positions [] pair_heap (VRef 0) (VRef 1) \<longrightarrow>
      a \<notin> snd ` positions [] pair_heap (VRef 0) (VRef 1)"
    unfolding pos by simp
  have fn: "\<forall>a a' b. (a, b) \<in> positions [] pair_heap (VRef 0) (VRef 1) \<longrightarrow>
      (a', b) \<in> positions [] pair_heap (VRef 0) (VRef 1) \<longrightarrow> a = a'"
    unfolding pos by auto
  note t = copy_db_ids_isomorphic [OF iso sep fn]
  have m: "(0, 1) \<in> positions [] pair_heap (VRef 0) (VRef 1)"
    "(2, 3) \<in> positions [] pair_heap (VRef 0) (VRef 1)"
    unfolding pos by simp_all
  have e: "endswith ''_db_id'' ''_db_id''" "\<not> endswith ''child'' ''_db_id''"
    by (simp_all add: endswith_def)
  have k: "''_db_id'' \<in> fst ` set (attrs (pair_heap 0))" "''_db_id'' \<in> fst ` set (attrs (pair_heap 2))"
    by (simp_all add: pair_heap_def no_objects_def mk_obj_def)
  have g: "getattr pair_heap 0 ''_db_id'' = Some (VInt 1)" "getattr pair_heap 2 ''_db_id'' = Some (VInt 5)"
    "getattr pair_heap 1 ''child'' = Some (VRef 3)"
    by (simp_all add: getattr_def pair_heap_def no_objects_def mk_obj_def)
  from t have 1: "fst (copy_db_ids (VRef 0) (VRef 1) [] pair_heap) = None" by blast
  from t m(1) e(1) k(1)
  have 2: "getattr (snd (copy_db_ids (VRef 0) (VRef 1) [] pair_heap)) 1 ''_db_id''
      = getattr pair_heap 0 ''_db_id''"
    and 5: "snd (copy_db_ids (VRef 0) (VRef 1) [] pair_heap) 0 = pair_heap 0"
    by blast+
  from t m(2) e(1) k(2)
  have 3: "getattr (snd (copy_db_ids (VRef 0) (VRef 1) [] pair_heap)) 3 ''_db_id''
      = getattr pair_heap 2 ''_db_id''"
    and 6: "snd (copy_db_ids (VRef 0) (VRef 1) [] pair_heap) 2 = pair_heap 2"
    by blast+
  from t e(2)
  have 4: "getattr (snd (copy_db_ids (VRef 0) (VRef 1) [] pair_heap)) 1 ''child''
      = getattr pair_heap 1 ''child''"
    by blast
  from 1 2 3 4 5 6 g show ?thesis by simp
qed

text \<open>
  C1 as stated fails: the two trials and their two owning experiments have the same types
  and the same attributes, the call returns, and the \<^verbatim>\<open>_db_id\<close> of the experiment of the
  target is still \<^verbatim>\<open>None\<close> where the one of the source is 7: the traversal does not
  follow \<^verbatim>\<open>_experiment\<close>.
\<close>

theorem back_reference_ids_not_copied:
  "type_of owner_heap (VRef 0) = type_of owner_heap (VRef 1) \<and>
   type_of owner_heap (VRef 2) = type_of owner_heap (VRef 3) \<and>
   map fst (attrs (owner_heap 0)) = map fst (attrs (owner_heap 1)) \<and>
   map fst (attrs (owner_heap 2)) = map fst (attrs (owner_heap 3)) \<and>
   getattr owner_heap 0 ''_experiment'' = Some (VRef 2) \<and>
   getattr owner_heap 1 ''_experiment'' = Some (VRef 3) \<and>
   fst (copy_db_ids_default (VRef 0) (VRef 1) owner_heap) = None \<and>
   getattr (snd (copy_db_ids_default (VRef 0) (VRef 1) owner_heap)) 2 ''_db_id'' = Some (VInt 7) \<and>
   getattr (snd (copy_db_ids_default (VRef 0) (VRef 1) owner_heap)) 3 ''_db_id'' = Some VNone"
  by (simp add: copy_db_ids_default_def copy_db_ids.simps owner_heap_def no_objects_def
      mk_obj_def endswith_def startswith_def getattr_def setattr_def)

end
